theory Spec2Isabelle
  imports Complex_Main "HOL-Library.Word" "HOL-Library.Sublist" "HOL-Library.AList"
begin

section \<open>Content classification: the transport-stream signature (mime-types.ts)\<close>

text \<open>
  A \<open>Buffer\<close> or \<open>Uint8Array\<close> is a list of bytes.  Reading \<open>data[i]\<close> past the end
  yields \<open>undefined\<close> in the source, which is different from every byte; each read below is
  guarded by the same length test the source makes, so no out-of-range read is ever evaluated.
\<close>

type_synonym byte = "8 word"
type_synonym bytes = "byte list"

text \<open>
  The loop \<open>for (let i = 1; i <= 5; i++)\<close> of \<open>detectTransportStream\<close>, with the running
  \<open>syncByteCount\<close> as accumulator.
\<close>

function syncLoop :: "bytes \<Rightarrow> nat \<Rightarrow> nat \<Rightarrow> nat" where
  "syncLoop data i syncByteCount =
     (if i \<le> 5 then
        (let offset = i * 188 in
           syncLoop data (i + 1)
             (if offset < length data \<and> data ! offset = 0x47
              then syncByteCount + 1 else syncByteCount))
      else syncByteCount)"
  by pat_completeness auto
termination
  by (relation "measure (\<lambda>(data, i, c). 6 - i)") auto

declare syncLoop.simps [simp del]

definition detectTransportStream :: "bytes \<Rightarrow> bool" where
  "detectTransportStream data =
     (if length data < 188 then False
      else if data ! 0 \<noteq> 0x47 then False
      else 2 \<le> syncLoop data 1 1)"

text \<open>One test of the loop: 1 when \<open>off\<close> lies inside \<open>d\<close> and holds the sync byte.\<close>

definition hit :: "bytes \<Rightarrow> nat \<Rightarrow> nat" where
  "hit d off = (if off < length d \<and> d ! off = 0x47 then 1 else 0)"

text \<open>Two sample buffers: sync bytes at offsets 0 and 188, and a sync byte at offset 0 only.\<close>

definition tsSample :: bytes where
  "tsSample = 0x47 # replicate 187 0 @ 0x47 # replicate 187 0"

definition loneSyncSample :: bytes where
  "loneSyncSample = 0x47 # replicate 999 0"

section \<open>The response cache (cache.ts)\<close>

text \<open>
  A JavaScript string is modelled by the bytes of its UTF-8 encoding (\<open>string\<close>); a cached
  payload is \<open>string | Buffer\<close>.
\<close>

datatype content = Text string | Buf bytes

text \<open>
  \<open>interface CacheEntry\<close>.  The fields \<open>content\<close>, \<open>contentType\<close>, \<open>timestamp\<close> and \<open>ttl\<close> carry
  the prefix \<open>e_\<close>.  \<open>timestamp\<close> is a value of \<open>Date.now()\<close>: integer milliseconds.
\<close>

record CacheEntry =
  e_content :: content
  e_contentType :: string
  e_timestamp :: int
  e_ttl :: int

text \<open>
  \<open>Map<string, CacheEntry>\<close> in insertion order: \<open>Map.set\<close> overwrites the value of a key already
  present where it stands and appends a new key, \<open>Map.delete\<close> removes the key.
\<close>

type_synonym cache = "(string \<times> CacheEntry) list"

text \<open>The constructor's default argument of the exported instance \<open>new SimpleCache()\<close>.\<close>

definition defaultTtl :: int where
  "defaultTtl = 300"

text \<open>
  \<open>ttl || this.defaultTtl\<close>: the argument \<open>ttl?: number\<close> is \<open>None\<close> when it is absent (or
  \<open>NaN\<close>, which \<open>parseInt\<close> can hand to the caller); absent, \<open>NaN\<close> and \<open>0\<close> are falsy.
\<close>

definition orDefaultTtl :: "int option \<Rightarrow> int" where
  "orDefaultTtl t = (case t of None \<Rightarrow> defaultTtl | Some n \<Rightarrow> if n = 0 then defaultTtl else n)"

text \<open>\<open>set(key, content, contentType, ttl)\<close> at the instant \<open>now = Date.now()\<close>.\<close>

definition cache_set :: "int \<Rightarrow> string \<Rightarrow> content \<Rightarrow> string \<Rightarrow> int option \<Rightarrow> cache \<Rightarrow> cache" where
  "cache_set now key c ctype t cache =
     AList.update key
       \<lparr>e_content = c, e_contentType = ctype, e_timestamp = now, e_ttl = orDefaultTtl t\<rparr> cache"

text \<open>
  \<open>const age = (Date.now() - entry.timestamp) / 1000\<close>, in seconds and as the exact quotient
  (the source divides two integers of at most 53 bits in double precision).
\<close>

definition age :: "int \<Rightarrow> CacheEntry \<Rightarrow> rat" where
  "age now entry = of_int (now - e_timestamp entry) / 1000"

text \<open>
  \<open>get(key)\<close> at the instant \<open>now\<close>: the value returned (\<open>null\<close> is \<open>None\<close>) and the cache
  after the call.
\<close>

definition cache_get :: "int \<Rightarrow> string \<Rightarrow> cache \<Rightarrow> (content \<times> string) option \<times> cache" where
  "cache_get now key cache =
     (case map_of cache key of
        None \<Rightarrow> (None, cache)
      | Some entry \<Rightarrow>
          if age now entry > of_int (e_ttl entry) then (None, AList.delete key cache)
          else (Some (e_content entry, e_contentType entry), cache))"

text \<open>
  \<open>cleanup()\<close>: the \<open>for ... of this.cache.entries()\<close> loop over the entries present when
  the sweep starts; the state is the cache and \<open>expiredCount\<close>.
\<close>

fun cleanupLoop :: "int \<Rightarrow> (string \<times> CacheEntry) list \<Rightarrow> cache \<times> nat \<Rightarrow> cache \<times> nat" where
  "cleanupLoop now [] st = st"
| "cleanupLoop now ((key, entry) # rest) (cache, expiredCount) =
     (if age now entry > of_int (e_ttl entry)
      then cleanupLoop now rest (AList.delete key cache, expiredCount + 1)
      else cleanupLoop now rest (cache, expiredCount))"

definition cleanup :: "int \<Rightarrow> cache \<Rightarrow> cache" where
  "cleanup now cache = fst (cleanupLoop now cache (cache, 0))"

text \<open>\<open>getStats()\<close>: the pair \<open>(size, keys)\<close>, both \<open>this.cache.size\<close>.\<close>

definition getStats :: "cache \<Rightarrow> nat \<times> nat" where
  "getStats cache = (length cache, length cache)"

definition cache_clear :: "cache \<Rightarrow> cache" where
  "cache_clear cache = []"

section \<open>Request headers (domain-templates.ts)\<close>

text \<open>
  \<open>interface DomainTemplate\<close>.  \<open>pattern\<close> is the template's \<open>RegExp\<close>, used only through
  \<open>pattern.test(hostname)\<close> (no \<open>g\<close> flag, so the test keeps no state): a predicate on the
  hostname.  The optional fields are \<open>None\<close> when absent; \<open>additionalHeaders\<close> lists the
  object's own properties in order.
\<close>

record DomainTemplate =
  pattern :: "string \<Rightarrow> bool"
  origin :: string
  referer :: string
  userAgent :: "string option"
  additionalHeaders :: "(string \<times> string) list option"

text \<open>The fields of the platform's \<open>URL\<close> object that the repository reads.\<close>

record url =
  protocol :: string
  hostname :: string
  host :: string

type_synonym headers = "string \<rightharpoonup> string"

definition DEFAULT_USER_AGENT :: string where
  "DEFAULT_USER_AGENT =
     ''Mozilla/5.0 (Windows NT 10.0; Win64; x64; rv:137.0) Gecko/20100101 Firefox/137.0''"

text \<open>The object literal \<open>generateHeaders\<close> starts from.\<close>

definition defaultHeaders :: headers where
  "defaultHeaders =
     [''user-agent'' \<mapsto> DEFAULT_USER_AGENT,
      ''accept'' \<mapsto> ''*/*'',
      ''accept-language'' \<mapsto> ''en-US,en;q=0.5'',
      ''sec-fetch-dest'' \<mapsto> ''empty'',
      ''sec-fetch-mode'' \<mapsto> ''cors'',
      ''sec-fetch-site'' \<mapsto> ''cross-site'']"

text \<open>
  \<open>findDomainTemplate\<close>, over the table \<open>domainTemplates\<close> (a parameter: every statement
  below holds for every table, the one of the source included).
\<close>

fun findDomainTemplate :: "DomainTemplate list \<Rightarrow> string \<Rightarrow> DomainTemplate option" where
  "findDomainTemplate [] h = None"
| "findDomainTemplate (template # rest) h =
     (if pattern template h then Some template else findDomainTemplate rest h)"

text \<open>\<open>Object.assign(target, source)\<close>: one assignment per own property of the source, in order.\<close>

definition objectAssign :: "headers \<Rightarrow> (string \<times> string) list \<Rightarrow> headers" where
  "objectAssign target source = foldl (\<lambda>h (k, v). h(k \<mapsto> v)) target source"

text \<open>\<open>generateHeaders\<close>; \<open>if (template.userAgent)\<close> is false for an empty string too.\<close>

definition generateHeaders :: "DomainTemplate list \<Rightarrow> url \<Rightarrow> headers" where
  "generateHeaders domainTemplates u =
     (let template = findDomainTemplate domainTemplates (hostname u);
          h0 = defaultHeaders;
          h4 = (case template of
                  None \<Rightarrow> h0
                | Some t \<Rightarrow>
                    (let h1 = h0(''origin'' \<mapsto> origin t);
                         h2 = h1(''referer'' \<mapsto> referer t);
                         h3 = (case userAgent t of
                                 None \<Rightarrow> h2
                               | Some ua \<Rightarrow> if ua \<noteq> [] then h2(''user-agent'' \<mapsto> ua) else h2)
                     in (case additionalHeaders t of
                           None \<Rightarrow> h3
                         | Some extra \<Rightarrow> objectAssign h3 extra)))
      in h4(''host'' \<mapsto> host u))"

text \<open>
  \<open>String.prototype.toLowerCase\<close> on the ASCII letters.  The source only compares lowered
  text with ASCII literals whose characters are the lower case of nothing outside ASCII, so
  the other characters of the input never decide a comparison.
\<close>

definition asciiLower :: "char \<Rightarrow> char" where
  "asciiLower c =
     (case map_of (zip ''ABCDEFGHIJKLMNOPQRSTUVWXYZ'' ''abcdefghijklmnopqrstuvwxyz'') c of
        Some l \<Rightarrow> l
      | None \<Rightarrow> c)"

definition toLowerCase :: "string \<Rightarrow> string" where
  "toLowerCase s = map asciiLower s"

text \<open>
  Two entries of the source's table, \<open>/\.padorupado\.ru$/i\<close> and \<open>/douvid\.xyz$/i\<close>, the second
  with its \<open>additionalHeaders\<close>; and two request URLs.
\<close>

definition sampleTemplates :: "DomainTemplate list" where
  "sampleTemplates =
     [\<lparr>pattern = (\<lambda>h. suffix ''.padorupado.ru'' (toLowerCase h)),
       origin = ''https://kwik.si'', referer = ''https://kwik.si/'',
       userAgent = None, additionalHeaders = None\<rparr>,
      \<lparr>pattern = (\<lambda>h. suffix ''douvid.xyz'' (toLowerCase h)),
       origin = ''https://megacloud.blog'', referer = ''https://megacloud.blog/'',
       userAgent = None,
       additionalHeaders = Some
         [(''accept'', ''*/*''),
          (''accept-language'', ''en-US,en;q=0.5''),
          (''sec-fetch-dest'', ''empty''),
          (''sec-fetch-mode'', ''cors''),
          (''sec-fetch-site'', ''cross-site'')]\<rparr>]"

definition douvidUrl :: url where
  "douvidUrl = \<lparr>protocol = ''https:'', hostname = ''a.douvid.xyz'', host = ''a.douvid.xyz:8443''\<rparr>"

definition plainUrl :: url where
  "plainUrl = \<lparr>protocol = ''https:'', hostname = ''cdn.example.com'', host = ''cdn.example.com''\<rparr>"

section \<open>Strings of the platform\<close>

text \<open>
  The methods of \<open>String.prototype\<close> the repository calls, on the UTF-8 bytes of a
  well-formed string.  A search for an ASCII text, and the prefix and suffix tests, give the
  same answer on the bytes as on the UTF-16 code units the platform works on.
\<close>

definition startsWith :: "string \<Rightarrow> string \<Rightarrow> bool" where
  "startsWith s p = prefix p s"

definition endsWith :: "string \<Rightarrow> string \<Rightarrow> bool" where
  "endsWith s p = suffix p s"

fun includesStr :: "string \<Rightarrow> string \<Rightarrow> bool" where
  "includesStr [] sub = (sub = [])"
| "includesStr (c # cs) sub = (prefix sub (c # cs) \<or> includesStr cs sub)"

text \<open>\<open>s.lastIndexOf(c)\<close> for a single character \<open>c\<close>: the last index of \<open>c\<close>, or \<open>-1\<close>.\<close>

fun lastIndexOf :: "string \<Rightarrow> char \<Rightarrow> int" where
  "lastIndexOf [] c = -1"
| "lastIndexOf (x # xs) c =
     (let r = lastIndexOf xs c in if 0 \<le> r then r + 1 else if x = c then 0 else -1)"

text \<open>\<open>s.substring(0, n)\<close>; a negative \<open>n\<close> counts as 0.\<close>

definition substring0 :: "string \<Rightarrow> int \<Rightarrow> string" where
  "substring0 s n = take (nat n) s"

text \<open>
  The white space and line terminators \<open>trim()\<close> strips, each as its UTF-8 bytes: U+0009 to
  U+000D, U+0020, U+00A0, U+1680, U+2000 to U+200A, U+2028, U+2029, U+202F, U+205F, U+3000
  and U+FEFF.
\<close>

definition whiteSpace :: "string list" where
  "whiteSpace =
     [[CHR 0x09], [CHR 0x0A], [CHR 0x0B], [CHR 0x0C], [CHR 0x0D], [CHR 0x20],
      [CHR 0xC2, CHR 0xA0], [CHR 0xE1, CHR 0x9A, CHR 0x80],
      [CHR 0xE2, CHR 0x80, CHR 0x80], [CHR 0xE2, CHR 0x80, CHR 0x81],
      [CHR 0xE2, CHR 0x80, CHR 0x82], [CHR 0xE2, CHR 0x80, CHR 0x83],
      [CHR 0xE2, CHR 0x80, CHR 0x84], [CHR 0xE2, CHR 0x80, CHR 0x85],
      [CHR 0xE2, CHR 0x80, CHR 0x86], [CHR 0xE2, CHR 0x80, CHR 0x87],
      [CHR 0xE2, CHR 0x80, CHR 0x88], [CHR 0xE2, CHR 0x80, CHR 0x89],
      [CHR 0xE2, CHR 0x80, CHR 0x8A], [CHR 0xE2, CHR 0x80, CHR 0xA8],
      [CHR 0xE2, CHR 0x80, CHR 0xA9], [CHR 0xE2, CHR 0x80, CHR 0xAF],
      [CHR 0xE2, CHR 0x81, CHR 0x9F], [CHR 0xE3, CHR 0x80, CHR 0x80],
      [CHR 0xEF, CHR 0xBB, CHR 0xBF]]"

text \<open>The number of bytes of the white-space character \<open>s\<close> starts with, 0 when it starts with none.\<close>

definition leadingSpace :: "string list \<Rightarrow> string \<Rightarrow> nat" where
  "leadingSpace ws s = (case find (\<lambda>w. prefix w s) ws of None \<Rightarrow> 0 | Some w \<Rightarrow> length w)"

fun stripLeading :: "string list \<Rightarrow> string \<Rightarrow> string" where
  "stripLeading ws [] = []"
| "stripLeading ws (c # cs) =
     (if leadingSpace ws (c # cs) = 0 then c # cs
      else stripLeading ws (drop (leadingSpace ws (c # cs) - 1) cs))"

definition trimStart :: "string \<Rightarrow> string" where
  "trimStart s = stripLeading whiteSpace s"

definition trimEnd :: "string \<Rightarrow> string" where
  "trimEnd s = rev (stripLeading (map rev whiteSpace) (rev s))"

definition trim :: "string \<Rightarrow> string" where
  "trim s = trimEnd (trimStart s)"

text \<open>
  \<open>content.split(/\r?\n/)\<close>: a line feed, or a carriage return right before one, ends a line;
  the result always has a last line, empty when the text ends in a line feed.
\<close>

fun splitLines :: "string \<Rightarrow> string list" where
  "splitLines [] = [[]]"
| "splitLines (c # cs) =
     (if c = CHR 0x0A then [] # splitLines cs
      else if c = CHR 0x0D \<and> cs \<noteq> [] \<and> hd cs = CHR 0x0A then [] # splitLines (tl cs)
      else (case splitLines cs of [] \<Rightarrow> [[c]] | l # ls \<Rightarrow> (c # l) # ls))"

text \<open>\<open>processed.join('\n')\<close>.\<close>

fun joinLines :: "string list \<Rightarrow> string" where
  "joinLines [] = []"
| "joinLines [l] = l"
| "joinLines (l # ls) = l @ CHR 0x0A # joinLines ls"

text \<open>
  \<open>line.matchAll(/URI="([^"]+)"/g)\<close>, as the list of the captured groups \<open>match[1]\<close>.
  \<open>uriMatchHere s\<close> is the match that starts at the head of \<open>s\<close>: the group and the text
  behind the closing quote.  The scan resumes behind a match, and one character further
  where none starts.
\<close>

definition dquote :: char where
  "dquote = CHR 0x22"

definition uriMatchHere :: "string \<Rightarrow> (string \<times> string) option" where
  "uriMatchHere s =
     (if prefix (''URI='' @ [dquote]) s then
        (let t = drop 5 s; g = takeWhile (\<lambda>c. c \<noteq> dquote) t; r = dropWhile (\<lambda>c. c \<noteq> dquote) t
         in if g \<noteq> [] \<and> r \<noteq> [] then Some (g, tl r) else None)
      else None)"

function uriMatches :: "string \<Rightarrow> string list" where
  "uriMatches [] = []"
| "uriMatches (c # cs) =
     (case uriMatchHere (c # cs) of
        Some (g, r) \<Rightarrow> g # uriMatches r
      | None \<Rightarrow> uriMatches cs)"
  by pat_completeness auto
termination
proof (relation "measure length")
  fix c :: char and cs x2 g r
  assume "uriMatchHere (c # cs) = Some x2" and "(g, r) = x2"
  then have r: "r = tl (dropWhile (\<lambda>c. c \<noteq> dquote) (drop 5 (c # cs)))"
    by (auto simp: uriMatchHere_def Let_def split: if_splits)
  have "length r \<le> length (dropWhile (\<lambda>c. c \<noteq> dquote) (drop 5 (c # cs)))"
    unfolding r by simp
  also have "\<dots> \<le> length (drop 5 (c # cs))"
    by (rule length_dropWhile_le)
  also have "\<dots> \<le> length cs"
    by simp
  finally show "(r, c # cs) \<in> measure length"
    by simp
qed auto

text \<open>
  \<open>GetSubstitution\<close> for a search by string (no captures): in the replacement text \<open>$$\<close> is
  \<open>$\<close>, \<open>$&\<close> the matched text, \<open>$`\<close> the text before the match and \<open>$'\<close> the text behind
  it; every other character stands for itself.
\<close>

fun getSubstitution :: "string \<Rightarrow> string \<Rightarrow> string \<Rightarrow> string \<Rightarrow> string" where
  "getSubstitution matched front back [] = []"
| "getSubstitution matched front back [c] = [c]"
| "getSubstitution matched front back (c # d # r) =
     (if c = CHR ''$'' \<and> d = CHR ''$'' then CHR ''$'' # getSubstitution matched front back r
      else if c = CHR ''$'' \<and> d = CHR ''&'' then matched @ getSubstitution matched front back r
      else if c = CHR ''$'' \<and> d = CHR 0x60 then front @ getSubstitution matched front back r
      else if c = CHR ''$'' \<and> d = CHR 0x27 then back @ getSubstitution matched front back r
      else c # getSubstitution matched front back (d # r))"

text \<open>The first occurrence of \<open>pat\<close> in \<open>s\<close>: the text before it and the text behind it.\<close>

fun firstOccurrence :: "string \<Rightarrow> string \<Rightarrow> (string \<times> string) option" where
  "firstOccurrence [] pat = (if pat = [] then Some ([], []) else None)"
| "firstOccurrence (c # cs) pat =
     (if prefix pat (c # cs) then Some ([], drop (length pat) (c # cs))
      else (case firstOccurrence cs pat of
              None \<Rightarrow> None
            | Some (front, back) \<Rightarrow> Some (c # front, back)))"

text \<open>\<open>s.replace(pat, replacement)\<close> with a string \<open>pat\<close>: the first occurrence only.\<close>

definition replaceFirst :: "string \<Rightarrow> string \<Rightarrow> string \<Rightarrow> string" where
  "replaceFirst s pat replacement =
     (case firstOccurrence s pat of
        None \<Rightarrow> s
      | Some (front, back) \<Rightarrow> front @ getSubstitution pat front back replacement @ back)"

text \<open>
  \<open>encodeURIComponent\<close>: the letters, the digits and \<open>- _ . ! ~ * ' ( )\<close> stand for themselves,
  every other byte of the UTF-8 encoding becomes \<open>%\<close> and two upper-case hexadecimal digits.
  (The platform raises \<open>URIError\<close> on a lone surrogate, which no UTF-8 text holds; the
  rewriter calls it inside its \<open>try\<close> blocks.)
\<close>

definition uriUnreserved :: "char \<Rightarrow> bool" where
  "uriUnreserved c \<longleftrightarrow>
     c \<in> set (''ABCDEFGHIJKLMNOPQRSTUVWXYZabcdefghijklmnopqrstuvwxyz0123456789-_.!~*()'' @ [CHR 0x27])"

definition hexDigit :: "nat \<Rightarrow> char" where
  "hexDigit n = ''0123456789ABCDEF'' ! (n mod 16)"

definition percentEncode :: "char \<Rightarrow> string" where
  "percentEncode c =
     (if uriUnreserved c then [c]
      else [CHR ''%'', hexDigit (of_char c div 16), hexDigit (of_char c mod 16)])"

definition encodeURIComponent :: "string \<Rightarrow> string" where
  "encodeURIComponent s = concat (map percentEncode s)"

section \<open>The playlist rewriter (proxy.ts)\<close>

text \<open>
  The platform's \<open>URL\<close> class is not code of the repository; the rewriter reaches it at two
  places, which are the two fields of \<open>urlApi\<close>: \<open>newUrl s\<close> is \<open>new URL(s)\<close>, and
  \<open>resolveUrl r b\<close> is \<open>new URL(r, b).toString()\<close>; \<open>None\<close> is the \<open>TypeError\<close> the
  constructor raises.
\<close>

record urlApi =
  newUrl :: "string \<Rightarrow> url option"
  resolveUrl :: "string \<Rightarrow> string \<Rightarrow> string option"

text \<open>
  The body of the two \<open>try\<close> blocks of \<open>processM3u8\<close>, which is the same code twice: the
  absolute URL of a reference and the proxied URL made of it, \<open>None\<close> when the block raises.
\<close>

definition absoluteOf :: "urlApi \<Rightarrow> url \<Rightarrow> string \<Rightarrow> string \<Rightarrow> string option" where
  "absoluteOf api baseUrlObj basePath ref =
     (if startsWith ref ''http://'' \<or> startsWith ref ''https://'' then Some ref
      else if startsWith ref ''//'' then Some (protocol baseUrlObj @ ref)
      else resolveUrl api ref basePath)"

definition proxiedOf :: "urlApi \<Rightarrow> url \<Rightarrow> string \<Rightarrow> string \<Rightarrow> string \<Rightarrow> string option" where
  "proxiedOf api baseUrlObj basePath proxyUrl ref =
     (case absoluteOf api baseUrlObj basePath ref of
        None \<Rightarrow> None
      | Some absolute \<Rightarrow> Some (proxyUrl @ ''?url='' @ encodeURIComponent absolute))"

text \<open>The loop \<open>for (const match of uriMatches)\<close> over the captured groups, on \<open>processedLine\<close>.\<close>

fun uriLoop :: "urlApi \<Rightarrow> url \<Rightarrow> string \<Rightarrow> string \<Rightarrow> string list \<Rightarrow> string \<Rightarrow> string" where
  "uriLoop api baseUrlObj basePath proxyUrl [] processedLine = processedLine"
| "uriLoop api baseUrlObj basePath proxyUrl (originalUri # rest) processedLine =
     (if startsWith originalUri proxyUrl
      then uriLoop api baseUrlObj basePath proxyUrl rest processedLine
      else (case proxiedOf api baseUrlObj basePath proxyUrl originalUri of
              None \<Rightarrow> uriLoop api baseUrlObj basePath proxyUrl rest processedLine
            | Some proxiedUrl \<Rightarrow>
                uriLoop api baseUrlObj basePath proxyUrl rest
                  (replaceFirst processedLine
                     (''URI='' @ [dquote] @ originalUri @ [dquote])
                     (''URI='' @ [dquote] @ proxiedUrl @ [dquote]))))"

text \<open>The function mapped over the lines.\<close>

definition processLine :: "urlApi \<Rightarrow> url \<Rightarrow> string \<Rightarrow> string \<Rightarrow> string \<Rightarrow> string" where
  "processLine api baseUrlObj basePath proxyUrl line =
     (let trimmedLine = trim line in
      if startsWith trimmedLine ''#'' then
        (if includesStr line (''URI='' @ [dquote])
         then uriLoop api baseUrlObj basePath proxyUrl (uriMatches line) line
         else line)
      else if 0 < length trimmedLine then
        (if startsWith trimmedLine proxyUrl then line
         else (case proxiedOf api baseUrlObj basePath proxyUrl trimmedLine of
                 None \<Rightarrow> line
               | Some proxiedUrl \<Rightarrow> proxiedUrl))
      else line)"

definition basePathOf :: "string \<Rightarrow> string" where
  "basePathOf baseUrl =
     (if endsWith baseUrl ''.m3u8'' then substring0 baseUrl (lastIndexOf baseUrl CHR ''/'' + 1)
      else if \<not> endsWith baseUrl ''/'' then baseUrl @ ''/''
      else baseUrl)"

text \<open>
  \<open>processM3u8(content, baseUrl, proxyUrl)\<close>.  Inside the outer \<open>try\<close> only \<open>new URL(baseUrl)\<close>
  can raise; the outer \<open>catch\<close> returns \<open>content\<close>.
\<close>

definition processM3u8 :: "urlApi \<Rightarrow> string \<Rightarrow> string \<Rightarrow> string \<Rightarrow> string" where
  "processM3u8 api content baseUrl proxyUrl =
     (case newUrl api baseUrl of
        None \<Rightarrow> content
      | Some baseUrlObj \<Rightarrow>
          joinLines (map (processLine api baseUrlObj (basePathOf baseUrl) proxyUrl)
                       (splitLines content)))"

text \<open>
  The answers of the platform's \<open>URL\<close> class that the scenarios below need, as a table: the
  source URL parses, the references \<open>segment001.ts\<close> and \<open>key.bin\<close> resolve against the
  directory of the source URL, and \<open>ws://[\<close>, an absolute URL with an unterminated IPv6
  host, is refused.  The table answers \<open>None\<close> on every other input.
\<close>

definition sourceUrl :: string where
  "sourceUrl = ''https://cdn.example.com/videos/show/index.m3u8''"

definition scenarioApi :: urlApi where
  "scenarioApi =
     \<lparr>newUrl = (\<lambda>s. if s = sourceUrl
                      then Some \<lparr>protocol = ''https:'', hostname = ''cdn.example.com'',
                                 host = ''cdn.example.com''\<rparr>
                      else None),
      resolveUrl = (\<lambda>r b. if b = ''https://cdn.example.com/videos/show/''
                                \<and> (r = ''segment001.ts'' \<or> r = ''key.bin'')
                             then Some (b @ r) else None)\<rparr>"

text \<open>The texts of the scenarios.\<close>

definition keyLine :: string where
  "keyLine = ''#EXT-X-KEY:METHOD=AES-128,URI='' @ [dquote] @ ''key.bin'' @ [dquote]"

definition keyLineProxied :: string where
  "keyLineProxied =
     ''#EXT-X-KEY:METHOD=AES-128,URI='' @ [dquote]
       @ ''/proxy?url=https%3A%2F%2Fcdn.example.com%2Fvideos%2Fshow%2Fkey.bin'' @ [dquote]"

text \<open>A directive line with two URI attributes, the first of which the platform refuses.\<close>

definition partLine :: string where
  "partLine =
     ''#EXT-X-PART:URI='' @ [dquote] @ ''ws://['' @ [dquote]
       @ '',URI='' @ [dquote] @ ''key.bin'' @ [dquote]"

definition partLineRewritten :: string where
  "partLineRewritten =
     ''#EXT-X-PART:URI='' @ [dquote] @ ''ws://['' @ [dquote] @ '',URI='' @ [dquote]
       @ ''/proxy?url=https%3A%2F%2Fcdn.example.com%2Fvideos%2Fshow%2Fkey.bin'' @ [dquote]"

text \<open>
  A directive line with two URI attributes, the first of which begins with \<open>/proxy\<close> without
  being a proxied URL.
\<close>

definition mixedLine :: string where
  "mixedLine =
     ''#EXT-X-PART:URI='' @ [dquote] @ ''/proxyfoo/a.ts'' @ [dquote]
       @ '',URI='' @ [dquote] @ ''key.bin'' @ [dquote]"

definition mixedLineRewritten :: string where
  "mixedLineRewritten =
     ''#EXT-X-PART:URI='' @ [dquote] @ ''/proxyfoo/a.ts'' @ [dquote] @ '',URI='' @ [dquote]
       @ ''/proxy?url=https%3A%2F%2Fcdn.example.com%2Fvideos%2Fshow%2Fkey.bin'' @ [dquote]"

text \<open>A playlist whose first line ends in two carriage returns and a line feed.\<close>

definition crText :: string where
  "crText = ''#EXTM3U'' @ [CHR 0x0D, CHR 0x0D, CHR 0x0A]"

text \<open>
  The replacement text of \<open>String.replace\<close> is taken literally when it holds none of the
  patterns \<open>$$\<close>, \<open>$&\<close>, \<open>$`\<close> and \<open>$'\<close>.
\<close>

definition replacementPattern :: "string \<Rightarrow> bool" where
  "replacementPattern r \<longleftrightarrow>
     includesStr r ''$$'' \<or> includesStr r ''$&'' \<or> includesStr r [CHR ''$'', CHR 0x60]
     \<or> includesStr r [CHR ''$'', CHR 0x27]"

text \<open>
  What the loop over the URI attributes puts in the place of an attribute value: the value
  itself when it begins with the proxy base path or fails to resolve, its proxied URL
  otherwise.
\<close>

definition settled :: "urlApi \<Rightarrow> url \<Rightarrow> string \<Rightarrow> string \<Rightarrow> string \<Rightarrow> string" where
  "settled api baseUrlObj basePath proxyUrl v =
     (if startsWith v proxyUrl then v
      else (case proxiedOf api baseUrlObj basePath proxyUrl v of
              None \<Rightarrow> v
            | Some proxiedUrl \<Rightarrow> proxiedUrl))"

text \<open>
  A line with every match of \<open>URI="([^"]+)"\<close> given a new value, each at its own place: the
  scan is that of \<open>uriMatches\<close>.
\<close>

function mapAttributes :: "(string \<Rightarrow> string) \<Rightarrow> string \<Rightarrow> string" where
  "mapAttributes g [] = []"
| "mapAttributes g (c # cs) =
     (case uriMatchHere (c # cs) of
        Some (v, r) \<Rightarrow> ''URI='' @ dquote # g v @ dquote # mapAttributes g r
      | None \<Rightarrow> c # mapAttributes g cs)"
  by pat_completeness auto
termination
proof (relation "measure (\<lambda>(g, s). length s)")
  fix g :: "string \<Rightarrow> string" and c :: char and cs x2 v r
  assume "uriMatchHere (c # cs) = Some x2" and "(v, r) = x2"
  then have r: "r = tl (dropWhile (\<lambda>c. c \<noteq> dquote) (drop 5 (c # cs)))"
    by (auto simp: uriMatchHere_def Let_def split: if_splits)
  have "length r \<le> length (dropWhile (\<lambda>c. c \<noteq> dquote) (drop 5 (c # cs)))"
    unfolding r by simp
  also have "\<dots> \<le> length (drop 5 (c # cs))"
    by (rule length_dropWhile_le)
  also have "\<dots> \<le> length cs"
    by simp
  finally show "((g, r), (g, c # cs)) \<in> measure (\<lambda>(g, s). length s)"
    by simp
qed auto

text \<open>A playlist with CRLF line ends: the header, the key line, a part line with two URI attributes and one segment.\<close>

definition partPlaylist :: string where
  "partPlaylist =
     ''#EXTM3U'' @ [CHR 0x0D, CHR 0x0A] @ keyLine @ [CHR 0x0D, CHR 0x0A]
       @ ''#EXT-X-PART:URI='' @ [dquote] @ ''segment001.ts'' @ [dquote]
       @ '',URI='' @ [dquote] @ ''key.bin'' @ [dquote] @ [CHR 0x0D, CHR 0x0A]
       @ ''segment001.ts'' @ [CHR 0x0D, CHR 0x0A]"

text \<open>
  A key line with an absolute URL, which the rewriter takes as it is, without the platform;
  and a line whose first URI attribute value ends in \<open>URI=\<close>, so that the text \<open>URI="\<close> and the
  second value stand at two places.
\<close>

definition absoluteKeyLine :: string where
  "absoluteKeyLine = ''#EXT-X-KEY:URI='' @ [dquote] @ ''http://a/k'' @ [dquote]"

definition straddleLine :: string where
  "straddleLine =
     ''#EXT-X-PART:URI='' @ [dquote] @ ''/proxyURI='' @ [dquote] @ ''http://a/k'' @ [dquote]
       @ '',URI='' @ [dquote] @ ''http://a/k'' @ [dquote]"

section \<open>Content classification by path and sample (mime-types.ts)\<close>

text \<open>
  The regular expressions of \<open>SEGMENT_PATTERNS\<close> are sequences of a literal text, matched
  without regard to the case of ASCII letters (flag \<open>i\<close>), and of \<open>\d+\<close>, with or without the
  anchor \<open>$\<close> at the end.  In each of them \<open>\d+\<close> is followed by a literal that starts with no
  digit, or by nothing, so only the longest run of digits can lead to a match.
\<close>

datatype rtok = Lit string | Digits

type_synonym regex = "rtok list \<times> bool"

definition isDigit :: "char \<Rightarrow> bool" where
  "isDigit c \<longleftrightarrow> c \<in> set ''0123456789''"

fun matchHere :: "rtok list \<Rightarrow> bool \<Rightarrow> string \<Rightarrow> bool" where
  "matchHere [] anchored s = (\<not> anchored \<or> s = [])"
| "matchHere (Lit l # ts) anchored s =
     (toLowerCase (take (length l) s) = l \<and> matchHere ts anchored (drop (length l) s))"
| "matchHere (Digits # ts) anchored s =
     (takeWhile isDigit s \<noteq> [] \<and> matchHere ts anchored (dropWhile isDigit s))"

text \<open>\<open>pattern.test(path)\<close>: a match may start at any position.\<close>

fun regexTest :: "regex \<Rightarrow> string \<Rightarrow> bool" where
  "regexTest r [] = matchHere (fst r) (snd r) []"
| "regexTest r (c # cs) = (matchHere (fst r) (snd r) (c # cs) \<or> regexTest r cs)"

definition SEGMENT_PATTERNS :: "regex list" where
  "SEGMENT_PATTERNS =
     [([Lit ''seg-'', Digits], False),
      ([Lit ''segment-'', Digits], False),
      ([Lit ''chunk-'', Digits], False),
      ([Lit ''frag-'', Digits], False),
      ([Lit ''part-'', Digits], False),
      ([Lit ''-v'', Digits, Lit ''-a'', Digits], False),
      ([Lit ''-f'', Digits, Lit ''-v'', Digits, Lit ''-a'', Digits], False),
      ([Lit ''media-'', Digits], False),
      ([Lit ''stream_'', Digits], False),
      ([Lit ''_'', Digits, Lit ''.ts''], True),
      ([Lit ''_'', Digits, Lit ''.m4s''], True)]"

definition isDisguisedSegment :: "string \<Rightarrow> bool" where
  "isDisguisedSegment path =
     (if path = [] then False
      else
        (let pathLower = toLowerCase path;
             hasSegmentPattern = list_ex (\<lambda>pattern. regexTest pattern path) SEGMENT_PATTERNS;
             hasSuspiciousExtension =
               list_ex (\<lambda>ext. endsWith pathLower ext)
                 [''.js'', ''.jpg'', ''.jpeg'', ''.png'', ''.gif'', ''.css'', ''.html'', ''.txt'',
                  ''.webp'', ''.ico'']
         in hasSegmentPattern \<and> hasSuspiciousExtension))"

definition isTsSegment :: "string \<Rightarrow> bool" where
  "isTsSegment path =
     (if path = [] then False
      else
        (let pathLower = toLowerCase path in
         if endsWith pathLower ''.ts'' \<or> endsWith pathLower ''.mts''
            \<or> endsWith pathLower ''.m2ts'' \<or> endsWith pathLower ''.mp2t'' then True
         else if isDisguisedSegment path then True
         else False))"

definition isM3u8Playlist :: "string \<Rightarrow> bool" where
  "isM3u8Playlist path =
     (if path = [] then False
      else endsWith (toLowerCase path) ''.m3u8'' \<or> endsWith (toLowerCase path) ''.m3u'')"

definition SUSPICIOUS_EXTENSIONS :: "string list" where
  "SUSPICIOUS_EXTENSIONS =
     [''.js'', ''.jpg'', ''.jpeg'', ''.png'', ''.gif'', ''.css'',
      ''.html'', ''.txt'', ''.webp'', ''.ico'', ''.json'', ''.xml'',
      ''.svg'', ''.pdf'', ''.doc'', ''.docx'']"

definition hasSuspiciousExtension :: "string \<Rightarrow> bool" where
  "hasSuspiciousExtension path =
     (let pathLower = toLowerCase path
      in list_ex (\<lambda>ext. endsWith pathLower ext) SUSPICIOUS_EXTENSIONS)"

text \<open>\<open>fallback || 'application/octet-stream'\<close>: an absent or empty fallback is falsy.\<close>

definition orOctetStream :: "string option \<Rightarrow> string" where
  "orOctetStream fallback =
     (case fallback of
        None \<Rightarrow> ''application/octet-stream''
      | Some f \<Rightarrow> if f = [] then ''application/octet-stream'' else f)"

text \<open>
  \<open>getStreamingContentType(path, buffer, fallback)\<close>.  \<open>afterPlaylistCheck\<close> is the code below
  the first \<open>if\<close>, reached when that block does not return.
\<close>

definition afterPlaylistCheck :: "string \<Rightarrow> bytes option \<Rightarrow> string option \<Rightarrow> string" where
  "afterPlaylistCheck path buffer fallback =
     (case buffer of
        None \<Rightarrow> if isTsSegment path then ''video/mp2t'' else orOctetStream fallback
      | Some b \<Rightarrow>
          if hasSuspiciousExtension path \<and> detectTransportStream b then ''video/mp2t''
          else if detectTransportStream b then ''video/mp2t''
          else if isTsSegment path then ''video/mp2t''
          else orOctetStream fallback)"

definition getStreamingContentType :: "string \<Rightarrow> bytes option \<Rightarrow> string option \<Rightarrow> string" where
  "getStreamingContentType path buffer fallback =
     (if path = [] then orOctetStream fallback
      else if isM3u8Playlist path then
        (case buffer of
           None \<Rightarrow> ''application/vnd.apple.mpegurl''
         | Some b \<Rightarrow>
             if 0 < length b \<and> b ! 0 = 0x23 \<and> 1 < length b \<and> b ! 1 = 0x45
             then ''application/vnd.apple.mpegurl''
             else afterPlaylistCheck path buffer fallback)
      else afterPlaylistCheck path buffer fallback)"

section \<open>Fetching and decompressing (proxy.ts)\<close>

text \<open>
  What the repository takes from outside itself: the \<open>URL\<close> class, the answer of the network
  to \<open>fetch(targetUrl, {headers, ...})\<close> (\<open>AbortError\<close> when the timeout fires first), the UTF-8
  decoder behind \<open>Response.text()\<close> and \<open>Buffer.toString('utf-8')\<close>, and the four
  decompressors, where \<open>None\<close> is the error they raise on bytes they cannot decode.
\<close>

datatype fetchError = AbortError | OtherError string

record fetchResponse =
  fr_status :: int
  fr_headers :: headers
  fr_body :: bytes

record runtime =
  urlClass :: urlApi
  fetch :: "string \<Rightarrow> headers \<Rightarrow> fetchError + fetchResponse"
  toStringUtf8 :: "bytes \<Rightarrow> string"
  gunzipSync :: "bytes \<Rightarrow> bytes option"
  inflateSync :: "bytes \<Rightarrow> bytes option"
  brotliDecompressSync :: "bytes \<Rightarrow> bytes option"
  zstdDecompress :: "bytes \<Rightarrow> bytes option"

text \<open>\<open>interface ProxyResult\<close>, its fields with the prefix \<open>r_\<close>.\<close>

record ProxyResult =
  r_content :: content
  r_contentType :: string
  r_status :: int
  r_headers :: headers

text \<open>The errors \<open>proxyUrl\<close> raises: the one of \<open>new URL\<close>, the timeout, and the one of \<open>fetch\<close>.\<close>

datatype proxyError = InvalidUrl | TimedOutAfter int | FetchFailed string

definition proxyUrl ::
  "runtime \<Rightarrow> DomainTemplate list \<Rightarrow> string \<Rightarrow> int \<Rightarrow> proxyError + ProxyResult" where
  "proxyUrl rt domainTemplates targetUrl timeout =
     (case newUrl (urlClass rt) targetUrl of
        None \<Rightarrow> Inl InvalidUrl
      | Some u \<Rightarrow>
          (let hs = generateHeaders domainTemplates u in
           case fetch rt targetUrl hs of
             Inl AbortError \<Rightarrow> Inl (TimedOutAfter timeout)
           | Inl (OtherError m) \<Rightarrow> Inl (FetchFailed m)
           | Inr response \<Rightarrow>
               (let contentType = orOctetStream (fr_headers response ''content-type'');
                    isM3u8 = includesStr contentType ''application/vnd.apple.mpegurl''
                             \<or> includesStr contentType ''application/x-mpegurl'';
                    c = (if isM3u8 then Text (toStringUtf8 rt (fr_body response))
                         else Buf (fr_body response))
                in Inr \<lparr>r_content = c, r_contentType = contentType,
                        r_status = fr_status response, r_headers = fr_headers response\<rparr>)))"

definition isM3u8Url :: "string \<Rightarrow> bool" where
  "isM3u8Url u = (endsWith (toLowerCase u) ''.m3u8'' \<or> includesStr (toLowerCase u) ''.m3u8?'')"

definition isM3u8ContentType :: "string \<Rightarrow> bool" where
  "isM3u8ContentType contentType =
     (includesStr contentType ''application/vnd.apple.mpegurl''
      \<or> includesStr contentType ''application/x-mpegurl''
      \<or> includesStr contentType ''audio/mpegurl''
      \<or> includesStr contentType ''audio/x-mpegurl'')"

text \<open>The \<open>catch\<close> of \<open>decompressContent\<close>: the original content when the decompressor raises.\<close>

definition orOriginal :: "bytes \<Rightarrow> bytes option \<Rightarrow> bytes" where
  "orOriginal original decompressed = (case decompressed of None \<Rightarrow> original | Some d \<Rightarrow> d)"

definition decompressContent :: "runtime \<Rightarrow> bytes \<Rightarrow> string option \<Rightarrow> bytes" where
  "decompressContent rt c encoding =
     (case encoding of
        None \<Rightarrow> c
      | Some e \<Rightarrow>
          if e = [] then c
          else
            (let l = toLowerCase e in
             if l = ''gzip'' then orOriginal c (gunzipSync rt c)
             else if l = ''deflate'' then orOriginal c (inflateSync rt c)
             else if l = ''br'' then orOriginal c (brotliDecompressSync rt c)
             else if l = ''zstd'' \<or> l = ''zst'' then orOriginal c (zstdDecompress rt c)
             else c))"

section \<open>The handler of \<open>GET /proxy\<close> (index.ts)\<close>

record config =
  cacheTtl :: "int option"
  requestTimeout :: int

text \<open>
  The body the handler sends: one of its three JSON objects, or the payload.  A response is
  the status, the headers the handler sets with \<open>c.header\<close>, in order, and the body.  The
  headers that the \<open>cors\<close> middleware adds to every response are not part of it.
\<close>

datatype body =
  MissingUrlJson
| InvalidUrlJson string
| ErrorJson proxyError string
| Payload content

record response =
  res_status :: nat
  res_headers :: "(string \<times> string) list"
  res_body :: body

text \<open>
  What a request leaves behind: the response, the cache, and \<open>result.headers\<close> of the fetched
  result as the handler leaves that object (\<open>None\<close> when nothing was fetched).
\<close>

record outcome =
  sent :: response
  resultHeaders :: "headers option"
  cacheAfter :: cache

text \<open>\<open>Number.prototype.toString()\<close> of a length.\<close>

fun showNat :: "nat \<Rightarrow> string" where
  "showNat n =
     (if n < 10 then [''0123456789'' ! n]
      else showNat (n div 10) @ [''0123456789'' ! (n mod 10)])"

declare showNat.simps [simp del]

text \<open>\<open>Buffer.from(text)\<close>: the bytes of the UTF-8 encoding.\<close>

definition utf8Bytes :: "string \<Rightarrow> bytes" where
  "utf8Bytes s = map (\<lambda>c. of_nat (of_char c)) s"

text \<open>A header value is truthy when it is present and not the empty string.\<close>

definition truthy :: "string option \<Rightarrow> bool" where
  "truthy v = (case v of None \<Rightarrow> False | Some s \<Rightarrow> s \<noteq> [])"

text \<open>
  ``Handle content decompression'': the content after the block.  \<open>decompressContent\<close> catches
  what its decompressors raise, so the handler's own \<open>catch\<close> around the call is never entered.
\<close>

definition decompressed :: "runtime \<Rightarrow> ProxyResult \<Rightarrow> content" where
  "decompressed rt result =
     (let contentEncoding = r_headers result ''content-encoding'' in
      case r_content result of
        Buf b \<Rightarrow> if truthy contentEncoding then Buf (decompressContent rt b contentEncoding) else Buf b
      | Text s \<Rightarrow> Text s)"

text \<open>
  ``Override content-type for disguised streaming segments'': \<open>result.contentType\<close> after the
  block, which is \<open>detectedContentType\<close> whether or not the assignment runs.
\<close>

definition classified :: "string \<Rightarrow> content \<Rightarrow> ProxyResult \<Rightarrow> string" where
  "classified targetUrl c result =
     (let buffer = (case c of Buf b \<Rightarrow> b | Text s \<Rightarrow> utf8Bytes s)
      in getStreamingContentType targetUrl (Some buffer) (Some (r_contentType result)))"

definition playlistMarker :: "string \<Rightarrow> bool" where
  "playlistMarker s = (startsWith (trim s) ''#EXTM3U'' \<or> startsWith (trim s) ''#EXT-X-'')"

definition isActuallyM3u8 :: "runtime \<Rightarrow> content \<Rightarrow> bool" where
  "isActuallyM3u8 rt c =
     (case c of
        Text s \<Rightarrow> playlistMarker s
      | Buf b \<Rightarrow>
          if 0 < length b
          then playlistMarker (toStringUtf8 rt (take (min 100 (length b)) b))
          else False)"

text \<open>``Process M3U8 playlists'': the content and \<open>result.contentType\<close> after the block.\<close>

definition rewritten :: "runtime \<Rightarrow> string \<Rightarrow> content \<Rightarrow> string \<Rightarrow> content \<times> string" where
  "rewritten rt targetUrl c contentType =
     (let isM3u8 = isM3u8Url targetUrl \<or> isM3u8ContentType contentType in
      if isM3u8 \<and> isActuallyM3u8 rt c then
        (let textContent = (case c of Text s \<Rightarrow> s | Buf b \<Rightarrow> toStringUtf8 rt b);
             proxyBaseUrl = ''/proxy''
         in (Text (processM3u8 (urlClass rt) textContent targetUrl proxyBaseUrl),
             ''application/vnd.apple.mpegurl''))
      else (c, contentType))"

definition contentLength :: "content \<Rightarrow> nat" where
  "contentLength c = (case c of Buf b \<Rightarrow> length b | Text s \<Rightarrow> length s)"

text \<open>
  The handler, with the cache before the request, the \<open>url\<close> parameter of the query (\<open>None\<close>
  when absent) and the two readings of the clock, in \<open>cache.get\<close> and in \<open>cache.set\<close>.
\<close>

definition handleProxy ::
  "runtime \<Rightarrow> config \<Rightarrow> DomainTemplate list \<Rightarrow> string option \<Rightarrow> int \<Rightarrow> int \<Rightarrow> cache \<Rightarrow> outcome" where
  "handleProxy rt cfg domainTemplates query now1 now2 cache =
     (case query of
        None \<Rightarrow>
          \<lparr>sent = \<lparr>res_status = 400, res_headers = [], res_body = MissingUrlJson\<rparr>,
           resultHeaders = None, cacheAfter = cache\<rparr>
      | Some targetUrl \<Rightarrow>
          if targetUrl = [] then
            \<lparr>sent = \<lparr>res_status = 400, res_headers = [], res_body = MissingUrlJson\<rparr>,
             resultHeaders = None, cacheAfter = cache\<rparr>
          else
            (case newUrl (urlClass rt) targetUrl of
               None \<Rightarrow>
                 \<lparr>sent = \<lparr>res_status = 400, res_headers = [], res_body = InvalidUrlJson targetUrl\<rparr>,
                  resultHeaders = None, cacheAfter = cache\<rparr>
             | Some _ \<Rightarrow>
                 (let cacheKey = targetUrl;
                      (cached, cache1) = cache_get now1 cacheKey cache
                  in case cached of
                       Some (c, contentType) \<Rightarrow>
                         \<lparr>sent = \<lparr>res_status = 200,
                                  res_headers = [(''Content-Type'', contentType), (''X-Cache'', ''HIT'')],
                                  res_body = Payload c\<rparr>,
                          resultHeaders = None, cacheAfter = cache1\<rparr>
                     | None \<Rightarrow>
                         (case proxyUrl rt domainTemplates targetUrl (requestTimeout cfg) of
                            Inl e \<Rightarrow>
                              \<lparr>sent = \<lparr>res_status = 500, res_headers = [],
                                       res_body = ErrorJson e targetUrl\<rparr>,
                               resultHeaders = None, cacheAfter = cache1\<rparr>
                          | Inr result \<Rightarrow>
                              (let c1 = decompressed rt result;
                                   contentType1 = classified targetUrl c1 result;
                                   (c2, contentType2) = rewritten rt targetUrl c1 contentType1;
                                   cache2 = cache_set now2 cacheKey c2 contentType2 (cacheTtl cfg) cache1;
                                   hs = (if truthy (r_headers result ''content-encoding'')
                                         then (r_headers result)(''content-encoding'' := None)
                                         else r_headers result)
                               in \<lparr>sent = \<lparr>res_status = 200,
                                            res_headers =
                                              [(''Content-Type'', contentType2), (''X-Cache'', ''MISS''),
                                               (''Content-Length'', showNat (contentLength c2))],
                                            res_body = Payload c2\<rparr>,
                                   resultHeaders = Some hs, cacheAfter = cache2\<rparr>)))))"

text \<open>The entry of \<open>result.headers\<close> under a name, as the handler leaves it.\<close>

definition leftHeader :: "outcome \<Rightarrow> string \<Rightarrow> string option option" where
  "leftHeader out name = map_option (\<lambda>hs. hs name) (resultHeaders out)"

text \<open>
  A runtime for the scenarios: the \<open>URL\<close> class of the table above, a network that gives one
  fixed answer, the UTF-8 decoder on the two bodies of the scenarios (the ASCII bytes of
  \<open>GIF\<close> and of a two-line playlist), and decompressors that refuse their input.  The answers
  of the network are a body labelled gzip that is no gzip stream, a playlist, and a failure.
\<close>

definition gifBytes :: bytes where
  "gifBytes = [0x47, 0x49, 0x46]"

definition playlistBytes :: bytes where
  "playlistBytes =
     [0x23, 0x45, 0x58, 0x54, 0x4D, 0x33, 0x55, 0x0A,
      0x73, 0x65, 0x67, 0x6D, 0x65, 0x6E, 0x74, 0x30, 0x30, 0x31, 0x2E, 0x74, 0x73]"

definition playlistText :: string where
  "playlistText = ''#EXTM3U'' @ [CHR 0x0A] @ ''segment001.ts''"

definition sampleRuntime :: "fetchError + fetchResponse \<Rightarrow> runtime" where
  "sampleRuntime answer =
     \<lparr>urlClass = scenarioApi,
      fetch = (\<lambda>u hs. answer),
      toStringUtf8 = (\<lambda>b. if b = gifBytes then ''GIF''
                           else if b = playlistBytes then playlistText else []),
      gunzipSync = (\<lambda>b. None),
      inflateSync = (\<lambda>b. None),
      brotliDecompressSync = (\<lambda>b. None),
      zstdDecompress = (\<lambda>b. None)\<rparr>"

definition gzipAnswer :: "fetchError + fetchResponse" where
  "gzipAnswer =
     Inr \<lparr>fr_status = 200,
          fr_headers = [''content-type'' \<mapsto> ''video/mp2t'', ''content-encoding'' \<mapsto> ''gzip''],
          fr_body = gifBytes\<rparr>"

definition playlistAnswer :: "fetchError + fetchResponse" where
  "playlistAnswer =
     Inr \<lparr>fr_status = 200,
          fr_headers = [''content-type'' \<mapsto> ''application/octet-stream''],
          fr_body = playlistBytes\<rparr>"

definition failedAnswer :: "fetchError + fetchResponse" where
  "failedAnswer = Inl (OtherError ''connect ECONNREFUSED'')"

definition sampleConfig :: config where
  "sampleConfig = \<lparr>cacheTtl = Some 300, requestTimeout = 30000\<rparr>"

text \<open>A cache whose one entry, under the source URL, was written at 0 ms to live one second.\<close>

definition staleCache :: cache where
  "staleCache = cache_set 0 sourceUrl (Text ''#EXTM3U'') ''application/vnd.apple.mpegurl'' (Some 1) []"

section \<open>Properties of the transport-stream detector\<close>

lemma syncLoop_6: "syncLoop d 6 c = c"
  by (subst syncLoop.simps) simp

lemma syncLoop_5: "syncLoop d 5 c = c + hit d 940"
  by (subst syncLoop.simps) (simp add: syncLoop_6 Let_def hit_def)

lemma syncLoop_4: "syncLoop d 4 c = c + hit d 752 + hit d 940"
  by (subst syncLoop.simps) (simp add: syncLoop_5 Let_def hit_def)

lemma syncLoop_3: "syncLoop d 3 c = c + hit d 564 + hit d 752 + hit d 940"
  by (subst syncLoop.simps) (simp add: syncLoop_4 Let_def hit_def)

lemma syncLoop_2: "syncLoop d 2 c = c + hit d 376 + hit d 564 + hit d 752 + hit d 940"
  by (subst syncLoop.simps) (simp add: syncLoop_3 Let_def hit_def)

lemma syncLoop_1:
  "syncLoop d 1 c = c + hit d 188 + hit d 376 + hit d 564 + hit d 752 + hit d 940"
  by (subst syncLoop.simps) (simp add: syncLoop_2 Let_def hit_def del: One_nat_def)

lemma detect_iff:
  "detectTransportStream b \<longleftrightarrow>
     188 \<le> length b \<and> b ! 0 = 0x47 \<and>
     ((188 < length b \<and> b ! 188 = 0x47) \<or> (376 < length b \<and> b ! 376 = 0x47) \<or>
      (564 < length b \<and> b ! 564 = 0x47) \<or> (752 < length b \<and> b ! 752 = 0x47) \<or>
      (940 < length b \<and> b ! 940 = 0x47))"
  by (auto simp add: detectTransportStream_def syncLoop_1 hit_def simp del: One_nat_def)

text \<open>
  Claim C2.  \<open>detectTransportStream b\<close> is true exactly when \<open>b\<close> has at least 188 bytes, byte 0
  is the sync byte \<open>0x47\<close>, and at least one of the offsets 188, 376, 564, 752, 940 lies
  inside \<open>b\<close> and holds \<open>0x47\<close> too.  In particular a buffer of at least 376 bytes with \<open>0x47\<close>
  at offsets 0 and 188 is a transport stream, and a buffer with no \<open>0x47\<close> at any of the
  five further offsets inside it is not.
\<close>

theorem detectTransportStream_sync_bytes:
  "(detectTransportStream b \<longleftrightarrow>
      188 \<le> length b \<and> b ! 0 = 0x47 \<and>
      ((188 < length b \<and> b ! 188 = 0x47) \<or> (376 < length b \<and> b ! 376 = 0x47) \<or>
       (564 < length b \<and> b ! 564 = 0x47) \<or> (752 < length b \<and> b ! 752 = 0x47) \<or>
       (940 < length b \<and> b ! 940 = 0x47)))
   \<and> (376 \<le> length b \<and> b ! 0 = 0x47 \<and> b ! 188 = 0x47 \<longrightarrow> detectTransportStream b)
   \<and> ((\<forall>off \<in> {188, 376, 564, 752, 940}. off < length b \<longrightarrow> b ! off \<noteq> 0x47)
        \<longrightarrow> \<not> detectTransportStream b)"
  by (auto simp: detect_iff)

theorem detectTransportStream_sync_bytes_witness:
  "376 \<le> length tsSample \<and> tsSample ! 0 = 0x47 \<and> tsSample ! 188 = 0x47
   \<and> detectTransportStream tsSample
   \<and> loneSyncSample ! 0 = 0x47 \<and> 188 \<le> length loneSyncSample
   \<and> \<not> detectTransportStream loneSyncSample"
  using detectTransportStream_sync_bytes [of tsSample]
    detectTransportStream_sync_bytes [of loneSyncSample]
  by (simp add: tsSample_def loneSyncSample_def nth_append)

section \<open>Properties of the response cache\<close>

lemma get_after_set_fresh:
  assumes "of_int (now' - now) / 1000 \<le> (of_int (orDefaultTtl t) :: rat)"
  shows "cache_get now' k (cache_set now k v ty t c) = (Some (v, ty), cache_set now k v ty t c)"
  using assms by (simp add: cache_get_def cache_set_def update_conv' age_def)

lemma delete_length_less:
  "k \<in> fst ` set c \<Longrightarrow> length (AList.delete k c) < length c"
  by (auto simp: AList.delete_eq intro!: length_filter_less)

lemma get_after_set_stale:
  assumes "of_int (now' - now) / 1000 > (of_int (orDefaultTtl t) :: rat)"
  shows "fst (cache_get now' k (cache_set now k v ty t c)) = None"
    and "map_of (snd (cache_get now' k (cache_set now k v ty t c))) k = None"
    and "fst (getStats (snd (cache_get now' k (cache_set now k v ty t c))))
           < fst (getStats (cache_set now k v ty t c))"
  using assms
  by (simp_all add: cache_get_def cache_set_def update_conv' age_def getStats_def
      delete_conv' delete_length_less dom_update [unfolded dom_map_of_conv_image_fst])

lemma get_sound:
  "cache_get now k c = (Some r, c') \<Longrightarrow>
     \<exists>e. map_of c k = Some e \<and> age now e \<le> of_int (e_ttl e)
       \<and> r = (e_content e, e_contentType e) \<and> c' = c"
  by (auto simp: cache_get_def split: option.splits if_splits)

lemma get_stale:
  "map_of c k = Some e \<Longrightarrow> age now e > of_int (e_ttl e) \<Longrightarrow>
     cache_get now k c = (None, AList.delete k c)"
  by (simp add: cache_get_def)

lemma cleanupLoop_subset:
  "set (fst (cleanupLoop now xs (c, n))) \<subseteq> set c"
proof (induction xs arbitrary: c n)
  case Nil
  then show ?case by simp
next
  case (Cons x xs)
  obtain k' e' where x: "x = (k', e')" by (cases x)
  have "set (AList.delete k' c) \<subseteq> set c"
    by (auto simp: AList.delete_eq)
  with Cons.IH [of "AList.delete k' c" "n + 1"] Cons.IH [of c n] x show ?case
    by (cases "age now e' > of_int (e_ttl e')") auto
qed

lemma cleanupLoop_removes:
  "(k, e) \<in> set (fst (cleanupLoop now xs (c, n))) \<Longrightarrow> (k, e) \<in> set xs \<Longrightarrow>
     age now e \<le> of_int (e_ttl e)"
proof (induction xs arbitrary: c n)
  case Nil
  then show ?case by simp
next
  case (Cons x xs)
  obtain k' e' where x: "x = (k', e')" by (cases x)
  show ?case
  proof (cases "age now e' > of_int (e_ttl e')")
    case True
    with Cons.prems x
    have in1: "(k, e) \<in> set (fst (cleanupLoop now xs (AList.delete k' c, n + 1)))"
      by simp
    then have "(k, e) \<in> set (AList.delete k' c)"
      using cleanupLoop_subset by blast
    then have "k \<noteq> k'"
      by (auto simp: AList.delete_eq)
    with Cons.prems x have "(k, e) \<in> set xs" by auto
    with Cons.IH in1 show ?thesis by blast
  next
    case False
    with Cons.prems x have in1: "(k, e) \<in> set (fst (cleanupLoop now xs (c, n)))"
      by simp
    show ?thesis
    proof (cases "(k, e) = (k', e')")
      case True
      with False show ?thesis by simp
    next
      case False
      with Cons.prems x have "(k, e) \<in> set xs" by auto
      with Cons.IH in1 show ?thesis by blast
    qed
  qed
qed

lemma cleanup_no_stale:
  "(k, e) \<in> set (cleanup now c) \<Longrightarrow> age now e \<le> of_int (e_ttl e)"
  unfolding cleanup_def using cleanupLoop_removes cleanupLoop_subset by blast

lemma cleanupLoop_keeps:
  assumes "(k, e) \<in> set c" and "age now e \<le> of_int (e_ttl e)"
    and "set xs \<subseteq> set c0" and "distinct (map fst c0)" and "(k, e) \<in> set c0"
  shows "(k, e) \<in> set (fst (cleanupLoop now xs (c, n)))"
  using assms
proof (induction xs arbitrary: c n)
  case Nil
  then show ?case by simp
next
  case (Cons x xs)
  obtain k' e' where x: "x = (k', e')" by (cases x)
  show ?case
  proof (cases "age now e' > of_int (e_ttl e')")
    case True
    have "k' \<noteq> k"
    proof
      assume "k' = k"
      with Cons.prems x have "(k, e') \<in> set c0" "(k, e) \<in> set c0" by auto
      with Cons.prems(4) have "e' = e" by (meson eq_key_imp_eq_value)
      with True Cons.prems(2) show False by simp
    qed
    then have "(k, e) \<in> set (AList.delete k' c)"
      using Cons.prems(1) by (auto simp: AList.delete_eq)
    then show ?thesis
      using Cons.IH [of "AList.delete k' c" "n + 1"] Cons.prems x True by simp
  next
    case False
    then show ?thesis using Cons.IH [of c n] Cons.prems x by simp
  qed
qed

lemma cleanup_keeps_fresh:
  "distinct (map fst c) \<Longrightarrow> (k, e) \<in> set c \<Longrightarrow> age now e \<le> of_int (e_ttl e) \<Longrightarrow>
     (k, e) \<in> set (cleanup now c)"
  unfolding cleanup_def by (rule cleanupLoop_keeps [where ?c0.0 = c]) auto

lemma cache_set_distinct: "distinct (map fst c) \<Longrightarrow> distinct (map fst (cache_set now k v ty t c))"
  by (simp add: cache_set_def distinct_update)

lemma cache_get_distinct: "distinct (map fst c) \<Longrightarrow> distinct (map fst (snd (cache_get now k c)))"
  by (simp add: cache_get_def distinct_delete split: option.splits)

text \<open>
  Claim C4, as the code has it.  The time to live that governs an entry is the one stored
  with it: the \<open>ttl\<close> given to \<open>set\<close> when that is a number other than 0, and the cache's
  default of 300 seconds when \<open>ttl\<close> is 0 or absent.  With \<open>ttl' = orDefaultTtl ttl\<close>: a \<open>get(k)\<close>
  while the age of the entry written by \<open>set(k, v, type, ttl)\<close> is at most \<open>ttl'\<close> returns
  \<open>(v, type)\<close> and leaves the cache alone; a \<open>get(k)\<close> once the age exceeds \<open>ttl'\<close> returns
  nothing, deletes the entry, and \<open>getStats\<close> then counts fewer entries.  Whatever the cache
  holds, \<open>get\<close> only ever returns an entry whose age is at most its own time to live, and
  after the sweep no entry older than its time to live remains, while (the keys of a
  \<open>Map\<close> being distinct) every other entry does.
\<close>

theorem cache_never_returns_expired:
  "(\<forall>n. n \<noteq> 0 \<longrightarrow> orDefaultTtl (Some n) = n) \<and> orDefaultTtl (Some 0) = 300
   \<and> orDefaultTtl None = 300
   \<and> (rat_of_int (now' - now) / 1000 \<le> of_int (orDefaultTtl t) \<longrightarrow>
        cache_get now' k (cache_set now k v ty t c) = (Some (v, ty), cache_set now k v ty t c))
   \<and> (rat_of_int (now' - now) / 1000 > of_int (orDefaultTtl t) \<longrightarrow>
        fst (cache_get now' k (cache_set now k v ty t c)) = None
        \<and> map_of (snd (cache_get now' k (cache_set now k v ty t c))) k = None
        \<and> fst (getStats (snd (cache_get now' k (cache_set now k v ty t c))))
             < fst (getStats (cache_set now k v ty t c)))
   \<and> (\<forall>r c'. cache_get now k c = (Some r, c') \<longrightarrow>
        (\<exists>e. map_of c k = Some e \<and> age now e \<le> of_int (e_ttl e)
           \<and> r = (e_content e, e_contentType e) \<and> c' = c))
   \<and> (\<forall>e. map_of c k = Some e \<and> age now e > of_int (e_ttl e) \<longrightarrow>
        cache_get now k c = (None, AList.delete k c))
   \<and> (\<forall>(k', e) \<in> set (cleanup now c). age now e \<le> of_int (e_ttl e))
   \<and> (distinct (map fst c) \<longrightarrow>
        set (cleanup now c) = {(k', e) \<in> set c. age now e \<le> of_int (e_ttl e)})"
proof -
  have sub: "set (cleanup now c) \<subseteq> set c"
    unfolding cleanup_def by (rule cleanupLoop_subset)
  have "distinct (map fst c) \<longrightarrow>
      set (cleanup now c) = {(k', e) \<in> set c. age now e \<le> of_int (e_ttl e)}"
    using sub cleanup_no_stale [of _ _ now c] cleanup_keeps_fresh [of c _ _ now] by auto
  moreover have "\<forall>(k', e) \<in> set (cleanup now c). age now e \<le> of_int (e_ttl e)"
    using cleanup_no_stale by auto
  moreover have "\<forall>r c'. cache_get now k c = (Some r, c') \<longrightarrow>
        (\<exists>e. map_of c k = Some e \<and> age now e \<le> of_int (e_ttl e)
           \<and> r = (e_content e, e_contentType e) \<and> c' = c)"
    using get_sound by blast
  moreover have "\<forall>e. map_of c k = Some e \<and> age now e > of_int (e_ttl e) \<longrightarrow>
        cache_get now k c = (None, AList.delete k c)"
    using get_stale by blast
  moreover have "(\<forall>n. n \<noteq> 0 \<longrightarrow> orDefaultTtl (Some n) = n) \<and> orDefaultTtl (Some 0) = 300
      \<and> orDefaultTtl None = 300"
    by (simp add: orDefaultTtl_def defaultTtl_def)
  ultimately show ?thesis
    using get_after_set_fresh [of now' now t k v ty c] get_after_set_stale [of t now' now k v ty c]
    by blast
qed

text \<open>
  The cache of the witness holds one entry written at 1000 ms with a time to live of one
  second: it is returned at 1500 ms and at 2000 ms, gone at 2001 ms, and swept at 2001 ms.
\<close>

theorem cache_never_returns_expired_witness:
  "orDefaultTtl (Some 1) = 1
   \<and> cache_get 2000 ''k'' (cache_set 1000 ''k'' (Text ''v'') ''t'' (Some 1) [])
       = (Some (Text ''v'', ''t''), cache_set 1000 ''k'' (Text ''v'') ''t'' (Some 1) [])
   \<and> cache_get 2001 ''k'' (cache_set 1000 ''k'' (Text ''v'') ''t'' (Some 1) []) = (None, [])
   \<and> getStats [] = (0, 0)
   \<and> getStats (cache_set 1000 ''k'' (Text ''v'') ''t'' (Some 1) []) = (1, 1)
   \<and> cleanup 2001 (cache_set 1000 ''k'' (Text ''v'') ''t'' (Some 1) []) = []
   \<and> cleanup 2000 (cache_set 1000 ''k'' (Text ''v'') ''t'' (Some 1) [])
       = cache_set 1000 ''k'' (Text ''v'') ''t'' (Some 1) []"
  using cache_never_returns_expired [of 2000 1000 "Some 1" "''k''" "Text ''v''" "''t''" "[]"]
    cache_never_returns_expired [of 2001 1000 "Some 1" "''k''" "Text ''v''" "''t''" "[]"]
    cache_never_returns_expired [of 0 2001 "Some 1" "''k''" "Text ''v''" "''t''"
      "cache_set 1000 ''k'' (Text ''v'') ''t'' (Some 1) []"]
  by (simp add: cache_get_def cache_set_def orDefaultTtl_def age_def getStats_def cleanup_def)

text \<open>
  Read with the \<open>ttl\<close> handed to \<open>set\<close>, C4 fails for \<open>ttl = 0\<close>: the entry is stored with the
  default of 300 seconds, and a \<open>get\<close> one second later, at an age above 0, still returns it.
\<close>

theorem cache_zero_ttl_counterexample:
  "rat_of_int (2000 - 1000) / 1000 > of_int 0
   \<and> fst (cache_get 2000 ''k'' (cache_set 1000 ''k'' (Text ''v'') ''t'' (Some 0) []))
       = Some (Text ''v'', ''t'')"
  by (simp add: cache_get_def cache_set_def orDefaultTtl_def defaultTtl_def age_def)

section \<open>Properties of the request headers\<close>

lemma objectAssign_lookup:
  "objectAssign h xs k = (case map_of (rev xs) k of Some v \<Rightarrow> Some v | None \<Rightarrow> h k)"
  unfolding objectAssign_def
  by (induction xs arbitrary: h) (auto split: option.splits simp: map_add_def)

lemma find_Some:
  "findDomainTemplate ts h = Some t \<Longrightarrow>
     \<exists>pre post. ts = pre @ t # post \<and> pattern t h \<and> (\<forall>x\<in>set pre. \<not> pattern x h)"
proof (induction ts)
  case Nil
  then show ?case by simp
next
  case (Cons a ts)
  show ?case
  proof (cases "pattern a h")
    case True
    with Cons.prems have "a = t" by simp
    with True show ?thesis by (intro exI [of _ "[]"] exI [of _ ts]) auto
  next
    case False
    with Cons obtain pre post
      where "ts = pre @ t # post" "pattern t h" "\<forall>x\<in>set pre. \<not> pattern x h"
      by auto
    with False show ?thesis by (intro exI [of _ "a # pre"] exI [of _ post]) auto
  qed
qed

lemma find_None: "findDomainTemplate ts h = None \<longleftrightarrow> (\<forall>t\<in>set ts. \<not> pattern t h)"
  by (induction ts) auto

lemma generateHeaders_host: "generateHeaders ts u ''host'' = Some (host u)"
  by (simp add: generateHeaders_def Let_def)

lemma generateHeaders_no_template:
  "findDomainTemplate ts (hostname u) = None \<Longrightarrow>
     generateHeaders ts u = defaultHeaders(''host'' \<mapsto> host u)"
  by (simp add: generateHeaders_def)

lemma generateHeaders_lookup:
  assumes "findDomainTemplate ts (hostname u) = Some t" and "k \<noteq> ''host''"
  shows "generateHeaders ts u k =
     (case map_of (rev (case additionalHeaders t of None \<Rightarrow> [] | Some extra \<Rightarrow> extra)) k of
        Some v \<Rightarrow> Some v
      | None \<Rightarrow>
          if k = ''origin'' then Some (origin t)
          else if k = ''referer'' then Some (referer t)
          else if k = ''user-agent'' then
            (case userAgent t of
               None \<Rightarrow> Some DEFAULT_USER_AGENT
             | Some ua \<Rightarrow> if ua \<noteq> [] then Some ua else Some DEFAULT_USER_AGENT)
          else defaultHeaders k)"
  using assms
  by (simp add: generateHeaders_def Let_def objectAssign_lookup defaultHeaders_def
      split: option.splits)

text \<open>
  Claim C6.  When the hostname of the URL matches a registered template, the template used
  is the first one of the table that matches; \<open>host\<close> of the result is the URL's authority
  whatever the template holds; every other header is the template's additional header of
  that name if it has one, and otherwise \<open>origin\<close> and \<open>referer\<close> are the template's values,
  \<open>user-agent\<close> is the template's when it specifies a (non-empty) one and the default one when
  it does not, and the remaining names are those of the default set.  When no template
  matches, the result is the default set plus \<open>host\<close>.
\<close>

theorem generateHeaders_from_template:
  "((\<exists>t \<in> set ts. pattern t (hostname u)) \<longrightarrow>
      (\<exists>t pre post. findDomainTemplate ts (hostname u) = Some t \<and> ts = pre @ t # post
         \<and> pattern t (hostname u) \<and> (\<forall>x \<in> set pre. \<not> pattern x (hostname u))))
   \<and> (findDomainTemplate ts (hostname u) = Some t \<longrightarrow>
        generateHeaders ts u ''host'' = Some (host u)
        \<and> (\<forall>k. k \<noteq> ''host'' \<longrightarrow> generateHeaders ts u k =
             (case map_of (rev (case additionalHeaders t of None \<Rightarrow> [] | Some extra \<Rightarrow> extra)) k of
                Some v \<Rightarrow> Some v
              | None \<Rightarrow>
                  if k = ''origin'' then Some (origin t)
                  else if k = ''referer'' then Some (referer t)
                  else if k = ''user-agent'' then
                    (case userAgent t of
                       None \<Rightarrow> Some DEFAULT_USER_AGENT
                     | Some ua \<Rightarrow> if ua \<noteq> [] then Some ua else Some DEFAULT_USER_AGENT)
                  else defaultHeaders k)))
   \<and> ((\<forall>t \<in> set ts. \<not> pattern t (hostname u)) \<longrightarrow>
        generateHeaders ts u = defaultHeaders(''host'' \<mapsto> host u))"
proof -
  have "(\<exists>t \<in> set ts. pattern t (hostname u)) \<longrightarrow>
      (\<exists>t pre post. findDomainTemplate ts (hostname u) = Some t \<and> ts = pre @ t # post
         \<and> pattern t (hostname u) \<and> (\<forall>x \<in> set pre. \<not> pattern x (hostname u)))"
  proof
    assume "\<exists>t \<in> set ts. pattern t (hostname u)"
    then have "findDomainTemplate ts (hostname u) \<noteq> None"
      by (simp add: find_None)
    then obtain t where "findDomainTemplate ts (hostname u) = Some t" by auto
    with find_Some [of ts "hostname u" t]
    show "\<exists>t pre post. findDomainTemplate ts (hostname u) = Some t \<and> ts = pre @ t # post
         \<and> pattern t (hostname u) \<and> (\<forall>x \<in> set pre. \<not> pattern x (hostname u))"
      by blast
  qed
  moreover have "(\<forall>t \<in> set ts. \<not> pattern t (hostname u)) \<longrightarrow>
      generateHeaders ts u = defaultHeaders(''host'' \<mapsto> host u)"
    using generateHeaders_no_template [of ts u] by (simp add: find_None)
  ultimately show ?thesis
    using generateHeaders_host [of ts u] generateHeaders_lookup [of ts u t] by blast
qed

theorem generateHeaders_from_template_witness:
  "findDomainTemplate sampleTemplates (hostname douvidUrl) = Some (sampleTemplates ! 1)
   \<and> generateHeaders sampleTemplates douvidUrl ''host'' = Some ''a.douvid.xyz:8443''
   \<and> generateHeaders sampleTemplates douvidUrl ''origin'' = Some ''https://megacloud.blog''
   \<and> generateHeaders sampleTemplates douvidUrl ''accept'' = Some ''*/*''
   \<and> generateHeaders sampleTemplates plainUrl = defaultHeaders(''host'' \<mapsto> ''cdn.example.com'')"
proof -
  have f: "findDomainTemplate sampleTemplates (hostname douvidUrl) = Some (sampleTemplates ! 1)"
    by (simp add: sampleTemplates_def douvidUrl_def toLowerCase_def asciiLower_def
        suffix_to_prefix)
  have n: "\<forall>t \<in> set sampleTemplates. \<not> pattern t (hostname plainUrl)"
    by (simp add: sampleTemplates_def plainUrl_def toLowerCase_def asciiLower_def
        suffix_to_prefix)
  note T = generateHeaders_from_template [of sampleTemplates douvidUrl "sampleTemplates ! 1"]
  from T f have h: "generateHeaders sampleTemplates douvidUrl ''host'' = Some (host douvidUrl)"
    by blast
  from T f have l: "\<And>k. k \<noteq> ''host'' \<Longrightarrow> generateHeaders sampleTemplates douvidUrl k =
             (case map_of (rev (case additionalHeaders (sampleTemplates ! 1) of None \<Rightarrow> [] | Some extra \<Rightarrow> extra)) k of
                Some v \<Rightarrow> Some v
              | None \<Rightarrow>
                  if k = ''origin'' then Some (origin (sampleTemplates ! 1))
                  else if k = ''referer'' then Some (referer (sampleTemplates ! 1))
                  else if k = ''user-agent'' then
                    (case userAgent (sampleTemplates ! 1) of
                       None \<Rightarrow> Some DEFAULT_USER_AGENT
                     | Some ua \<Rightarrow> if ua \<noteq> [] then Some ua else Some DEFAULT_USER_AGENT)
                  else defaultHeaders k)"
    by blast
  have o: "generateHeaders sampleTemplates douvidUrl ''origin'' = Some ''https://megacloud.blog''"
    by (subst l) (simp_all add: sampleTemplates_def)
  have a: "generateHeaders sampleTemplates douvidUrl ''accept'' = Some ''*/*''"
    by (subst l) (simp_all add: sampleTemplates_def)
  from generateHeaders_from_template [of sampleTemplates plainUrl] n
  have p: "generateHeaders sampleTemplates plainUrl = defaultHeaders(''host'' \<mapsto> host plainUrl)"
    by blast
  from f h o a p show ?thesis
    by (simp add: douvidUrl_def plainUrl_def)
qed


section \<open>Properties of the playlist rewriter\<close>

lemmas str_eval = startsWith_def endsWith_def suffix_to_prefix trim_def trimStart_def trimEnd_def
  leadingSpace_def whiteSpace_def substring0_def Let_def dquote_def
  encodeURIComponent_def percentEncode_def uriUnreserved_def hexDigit_def
  uriMatchHere_def replaceFirst_def

lemma basePathOf_sourceUrl: "basePathOf sourceUrl = ''https://cdn.example.com/videos/show/''"
  by (simp add: basePathOf_def sourceUrl_def str_eval)

lemma lastIndexOf_absent: "c \<notin> set f \<Longrightarrow> lastIndexOf f c = -1"
  by (induction f) (auto simp: Let_def)

lemma lastIndexOf_last: "c \<notin> set f \<Longrightarrow> lastIndexOf (d @ c # f) c = int (length d)"
  by (induction d) (auto simp: Let_def lastIndexOf_absent)

lemma basePathOf_strips:
  assumes "CHR ''/'' \<notin> set f" and "endsWith f ''.m3u8''"
  shows "basePathOf (d @ ''/'' @ f) = d @ ''/''"
proof -
  have "endsWith (d @ ''/'' @ f) ''.m3u8''"
    using assms(2) unfolding endsWith_def by (metis append_assoc suffix_append suffix_order.refl suffix_appendI)
  moreover have "nat (int (length d) + 1) = Suc (length d)"
    by simp
  ultimately show ?thesis
    using lastIndexOf_last [OF assms(1), of d] by (simp add: basePathOf_def substring0_def)
qed

lemma processLine_uri_line:
  assumes "trim l \<noteq> []" and "\<not> startsWith (trim l) ''#''" and "\<not> startsWith (trim l) p"
  shows "processLine api b bp p l =
     (case absoluteOf api b bp (trim l) of
        None \<Rightarrow> l
      | Some a \<Rightarrow> p @ ''?url='' @ encodeURIComponent a)"
  using assms by (simp add: processLine_def proxiedOf_def Let_def split: option.splits)

lemma seg_line:
  assumes "resolveUrl api ''segment001.ts'' ''https://cdn.example.com/videos/show/''
             = Some ''https://cdn.example.com/videos/show/segment001.ts''"
  shows "processLine api b ''https://cdn.example.com/videos/show/'' ''/proxy'' ''segment001.ts''
           = ''/proxy?url=https%3A%2F%2Fcdn.example.com%2Fvideos%2Fshow%2Fsegment001.ts''"
  using assms by (simp add: processLine_def proxiedOf_def absoluteOf_def str_eval)

lemma key_line:
  assumes "resolveUrl api ''key.bin'' ''https://cdn.example.com/videos/show/''
             = Some ''https://cdn.example.com/videos/show/key.bin''"
  shows "processLine api b ''https://cdn.example.com/videos/show/'' ''/proxy'' keyLine = keyLineProxied"
  using assms
  by (simp add: processLine_def proxiedOf_def absoluteOf_def keyLine_def keyLineProxied_def str_eval)

lemma processM3u8_no_base: "newUrl api u = None \<Longrightarrow> processM3u8 api t u p = t"
  by (simp add: processM3u8_def)

lemma processM3u8_lines:
  "newUrl api u = Some b \<Longrightarrow>
     processM3u8 api t u p = joinLines (map (processLine api b (basePathOf u) p) (splitLines t))"
  by (simp add: processM3u8_def)

lemma uriLoop_skip:
  "startsWith v p \<or> proxiedOf api b bp p v = None \<Longrightarrow>
     uriLoop api b bp p (v # rest) pl = uriLoop api b bp p rest pl"
  by auto

lemma uriLoop_all_skip:
  "\<forall>v \<in> set vs. startsWith v p \<or> proxiedOf api b bp p v = None \<Longrightarrow>
     uriLoop api b bp p vs pl = pl"
  by (induction vs) auto

lemma processLine_directive_kept:
  assumes "startsWith (trim l) ''#''"
    and "\<forall>v \<in> set (uriMatches l). startsWith v p \<or> proxiedOf api b bp p v = None"
  shows "processLine api b bp p l = l"
  using assms by (simp add: processLine_def uriLoop_all_skip)

lemma processLine_uri_kept:
  assumes "\<not> startsWith (trim l) ''#''"
    and "startsWith (trim l) p \<or> proxiedOf api b bp p (trim l) = None"
  shows "processLine api b bp p l = l"
  using assms by (auto simp add: processLine_def Let_def)

lemma processLine_blank: "trim l = [] \<Longrightarrow> processLine api b bp p l = l"
  by (simp add: processLine_def startsWith_def)

text \<open>
  Claim C1.  With the source URL \<open>https://cdn.example.com/videos/show/index.m3u8\<close> and the
  proxy base path \<open>/proxy\<close>, on a platform whose \<open>URL\<close> class parses the source URL and
  resolves \<open>segment001.ts\<close> and \<open>key.bin\<close> against the directory of the source URL: the base
  path is the source URL without its final path component, the line \<open>segment001.ts\<close> becomes
  the proxied URL of the scenario, and the \<open>#EXT-X-KEY\<close> line keeps everything but the value
  of its URI attribute, which becomes the proxied URL.  Both go through the same procedure:
  the base path of a source URL ending in \<open>.m3u8\<close> is the URL up to its last \<open>/\<close>, and a
  reference that is not proxied yet is replaced by the proxy base path, \<open>?url=\<close> and the
  percent-encoded absolute URL.
\<close>

theorem processM3u8_scenarios:
  assumes "newUrl api sourceUrl = Some b"
    and "resolveUrl api ''segment001.ts'' ''https://cdn.example.com/videos/show/''
           = Some ''https://cdn.example.com/videos/show/segment001.ts''"
    and "resolveUrl api ''key.bin'' ''https://cdn.example.com/videos/show/''
           = Some ''https://cdn.example.com/videos/show/key.bin''"
  shows "basePathOf sourceUrl = ''https://cdn.example.com/videos/show/''
    \<and> processM3u8 api ''segment001.ts'' sourceUrl ''/proxy''
          = ''/proxy?url=https%3A%2F%2Fcdn.example.com%2Fvideos%2Fshow%2Fsegment001.ts''
    \<and> processM3u8 api
          (''#EXT-X-KEY:METHOD=AES-128,URI='' @ [CHR 0x22] @ ''key.bin'' @ [CHR 0x22])
          sourceUrl ''/proxy''
          = ''#EXT-X-KEY:METHOD=AES-128,URI='' @ [CHR 0x22]
              @ ''/proxy?url=https%3A%2F%2Fcdn.example.com%2Fvideos%2Fshow%2Fkey.bin'' @ [CHR 0x22]
    \<and> (\<forall>d f. CHR ''/'' \<notin> set f \<and> endsWith f ''.m3u8'' \<longrightarrow>
           basePathOf (d @ ''/'' @ f) = d @ ''/'')
    \<and> (\<forall>l p bp. trim l \<noteq> [] \<and> \<not> startsWith (trim l) ''#'' \<and> \<not> startsWith (trim l) p \<longrightarrow>
           processLine api b bp p l =
             (case absoluteOf api b bp (trim l) of
                None \<Rightarrow> l
              | Some a \<Rightarrow> p @ ''?url='' @ encodeURIComponent a))
    \<and> (\<forall>v p bp rest pl. \<not> startsWith v p \<longrightarrow>
           uriLoop api b bp p (v # rest) pl =
             (case absoluteOf api b bp v of
                None \<Rightarrow> uriLoop api b bp p rest pl
              | Some a \<Rightarrow>
                  uriLoop api b bp p rest
                    (replaceFirst pl (''URI='' @ [dquote] @ v @ [dquote])
                       (''URI='' @ [dquote] @ (p @ ''?url='' @ encodeURIComponent a) @ [dquote]))))"
proof -
  have seg: "processM3u8 api ''segment001.ts'' sourceUrl ''/proxy''
      = ''/proxy?url=https%3A%2F%2Fcdn.example.com%2Fvideos%2Fshow%2Fsegment001.ts''"
    using assms(1) seg_line [OF assms(2), of b]
    by (simp add: processM3u8_def basePathOf_sourceUrl)
  have key: "processM3u8 api
          (''#EXT-X-KEY:METHOD=AES-128,URI='' @ [CHR 0x22] @ ''key.bin'' @ [CHR 0x22])
          sourceUrl ''/proxy''
          = ''#EXT-X-KEY:METHOD=AES-128,URI='' @ [CHR 0x22]
              @ ''/proxy?url=https%3A%2F%2Fcdn.example.com%2Fvideos%2Fshow%2Fkey.bin'' @ [CHR 0x22]"
    using assms(1) key_line [OF assms(3), of b]
    by (simp add: processM3u8_def basePathOf_sourceUrl keyLine_def keyLineProxied_def dquote_def)
  have loop: "\<forall>v p bp rest pl. \<not> startsWith v p \<longrightarrow>
           uriLoop api b bp p (v # rest) pl =
             (case absoluteOf api b bp v of
                None \<Rightarrow> uriLoop api b bp p rest pl
              | Some a \<Rightarrow>
                  uriLoop api b bp p rest
                    (replaceFirst pl (''URI='' @ [dquote] @ v @ [dquote])
                       (''URI='' @ [dquote] @ (p @ ''?url='' @ encodeURIComponent a) @ [dquote])))"
    by (simp add: proxiedOf_def split: option.splits)
  from seg key loop show ?thesis
    using basePathOf_sourceUrl basePathOf_strips processLine_uri_line by blast
qed

theorem processM3u8_scenarios_witness:
  "processM3u8 scenarioApi ''segment001.ts'' sourceUrl ''/proxy''
     = ''/proxy?url=https%3A%2F%2Fcdn.example.com%2Fvideos%2Fshow%2Fsegment001.ts''
   \<and> processM3u8 scenarioApi keyLine sourceUrl ''/proxy'' = keyLineProxied
   \<and> basePathOf ''http://a/b/c.m3u8'' = ''http://a/b/''"
proof -
  have "newUrl scenarioApi sourceUrl
      = Some \<lparr>protocol = ''https:'', hostname = ''cdn.example.com'', host = ''cdn.example.com''\<rparr>"
    and "resolveUrl scenarioApi ''segment001.ts'' ''https://cdn.example.com/videos/show/''
           = Some ''https://cdn.example.com/videos/show/segment001.ts''"
    and "resolveUrl scenarioApi ''key.bin'' ''https://cdn.example.com/videos/show/''
           = Some ''https://cdn.example.com/videos/show/key.bin''"
    by (simp_all add: scenarioApi_def)
  note T = processM3u8_scenarios [OF this]
  have "CHR ''/'' \<notin> set ''c.m3u8'' \<and> endsWith ''c.m3u8'' ''.m3u8''"
    by (simp add: endsWith_def suffix_to_prefix)
  with T have "basePathOf (''http://a/b'' @ ''/'' @ ''c.m3u8'') = ''http://a/b'' @ ''/''"
    by blast
  with T show ?thesis
    by (simp add: keyLine_def keyLineProxied_def dquote_def)
qed

text \<open>
  Claim C8, as the code has it.  \<open>processM3u8\<close> always returns a text.  When the source URL
  does not parse, the one failure of the document as a whole, it returns the original text.
  Otherwise every input line gives exactly one output line, each the result of the line
  function on that line alone, and the output lines are joined with a line feed.  A URI line
  whose reference fails to resolve is emitted as it was.  In a directive line the failure is
  contained per attribute: an attribute that fails to resolve is left as it was and the loop
  goes on to the remaining attributes with the line as it is, so the line is emitted
  unmodified when all its attributes fail.
\<close>

theorem processM3u8_contains_failures:
  "(newUrl api u = None \<longrightarrow> processM3u8 api t u p = t)
   \<and> (newUrl api u = Some b \<longrightarrow>
        (\<exists>out. processM3u8 api t u p = joinLines out \<and> length out = length (splitLines t)
           \<and> (\<forall>i. i < length out \<longrightarrow>
                 out ! i = processLine api b (basePathOf u) p (splitLines t ! i))))
   \<and> (\<not> startsWith (trim l) ''#'' \<and> proxiedOf api b bp p (trim l) = None \<longrightarrow>
        processLine api b bp p l = l)
   \<and> (proxiedOf api b bp p v = None \<longrightarrow>
        uriLoop api b bp p (v # rest) pl = uriLoop api b bp p rest pl)
   \<and> (startsWith (trim l) ''#'' \<and> (\<forall>v \<in> set (uriMatches l). proxiedOf api b bp p v = None) \<longrightarrow>
        processLine api b bp p l = l)"
proof -
  have "newUrl api u = Some b \<longrightarrow>
        (\<exists>out. processM3u8 api t u p = joinLines out \<and> length out = length (splitLines t)
           \<and> (\<forall>i. i < length out \<longrightarrow>
                 out ! i = processLine api b (basePathOf u) p (splitLines t ! i)))"
  proof
    assume "newUrl api u = Some b"
    then have "processM3u8 api t u p
        = joinLines (map (processLine api b (basePathOf u) p) (splitLines t))"
      by (rule processM3u8_lines)
    then show "\<exists>out. processM3u8 api t u p = joinLines out \<and> length out = length (splitLines t)
           \<and> (\<forall>i. i < length out \<longrightarrow>
                 out ! i = processLine api b (basePathOf u) p (splitLines t ! i))"
      by (intro exI [of _ "map (processLine api b (basePathOf u) p) (splitLines t)"]) simp
  qed
  moreover have "\<not> startsWith (trim l) ''#'' \<and> proxiedOf api b bp p (trim l) = None \<longrightarrow>
        processLine api b bp p l = l"
    using processLine_uri_kept [of l p api b bp] by auto
  moreover have "startsWith (trim l) ''#''
      \<and> (\<forall>v \<in> set (uriMatches l). proxiedOf api b bp p v = None) \<longrightarrow>
        processLine api b bp p l = l"
    using processLine_directive_kept [of l p api b bp] by auto
  ultimately show ?thesis
    using processM3u8_no_base [of api u t p] uriLoop_skip [of v p api b bp rest pl] by blast
qed

theorem processM3u8_contains_failures_witness:
  "processM3u8 scenarioApi ''segment001.ts'' ''no url'' ''/proxy'' = ''segment001.ts''
   \<and> processM3u8 scenarioApi (''ws://['' @ [CHR 0x0A] @ ''segment001.ts'') sourceUrl ''/proxy''
       = ''ws://['' @ [CHR 0x0A]
           @ ''/proxy?url=https%3A%2F%2Fcdn.example.com%2Fvideos%2Fshow%2Fsegment001.ts''"
proof -
  have "newUrl scenarioApi ''no url'' = None"
    by (simp add: scenarioApi_def sourceUrl_def)
  with processM3u8_contains_failures [of scenarioApi "''no url''" "''segment001.ts''" "''/proxy''"]
  have "processM3u8 scenarioApi ''segment001.ts'' ''no url'' ''/proxy'' = ''segment001.ts''"
    by blast
  moreover have "processM3u8 scenarioApi (''ws://['' @ [CHR 0x0A] @ ''segment001.ts'')
        sourceUrl ''/proxy''
       = ''ws://['' @ [CHR 0x0A]
           @ ''/proxy?url=https%3A%2F%2Fcdn.example.com%2Fvideos%2Fshow%2Fsegment001.ts''"
    by (simp add: processM3u8_def scenarioApi_def basePathOf_sourceUrl processLine_def
        proxiedOf_def absoluteOf_def str_eval)
  ultimately show ?thesis by simp
qed

text \<open>
  As C8 words it, a resolution failure on a line leaves the line unmodified.  The line
  \<open>#EXT-X-PART:URI="ws://[",URI="key.bin"\<close> has an attribute that fails to resolve, and it is
  emitted with its other attribute rewritten.
\<close>

theorem processM3u8_partial_line_counterexample:
  "proxiedOf scenarioApi
      \<lparr>protocol = ''https:'', hostname = ''cdn.example.com'', host = ''cdn.example.com''\<rparr>
      (basePathOf sourceUrl) ''/proxy'' ''ws://['' = None
   \<and> uriMatches partLine = [''ws://['', ''key.bin'']
   \<and> processM3u8 scenarioApi partLine sourceUrl ''/proxy'' = partLineRewritten
   \<and> partLineRewritten \<noteq> partLine"
proof -
  have "uriMatches partLine = [''ws://['', ''key.bin'']"
    by (simp add: partLine_def str_eval)
  moreover have "processM3u8 scenarioApi partLine sourceUrl ''/proxy'' = partLineRewritten"
    by (simp add: processM3u8_def scenarioApi_def basePathOf_sourceUrl processLine_def
        proxiedOf_def absoluteOf_def partLine_def partLineRewritten_def str_eval)
  moreover have "partLineRewritten \<noteq> partLine"
    by (simp add: partLine_def partLineRewritten_def dquote_def)
  ultimately show ?thesis
    by (simp add: scenarioApi_def basePathOf_sourceUrl proxiedOf_def absoluteOf_def str_eval)
qed

text \<open>
  Claim C10, as the code has it.  The guard is a test on the characters alone.  A line that
  is not blank and not a directive, and whose trimmed text begins with the proxy base path,
  is emitted as it stands.  A URI attribute value that begins with the proxy base path is
  skipped by the loop, which goes on to the next attribute with the line as it is; so a
  directive line whose URI attribute values all begin with it is emitted as it stands.  This
  is so for \<open>/proxyfoo/seg.ts\<close> and \<open>/proxyfoo/init.mp4\<close> under the proxy base path
  \<open>/proxy\<close>, references that were never proxied: they are neither resolved nor rewritten,
  whatever the platform would answer for them.
\<close>

theorem processM3u8_prefix_guard:
  "(trim l \<noteq> [] \<and> \<not> startsWith (trim l) ''#'' \<and> startsWith (trim l) p \<longrightarrow>
      processLine api b bp p l = l)
   \<and> (startsWith v p \<longrightarrow> uriLoop api b bp p (v # rest) pl = uriLoop api b bp p rest pl)
   \<and> (startsWith (trim l) ''#'' \<and> (\<forall>v \<in> set (uriMatches l). startsWith v p) \<longrightarrow>
        processLine api b bp p l = l)
   \<and> processLine api b bp ''/proxy'' ''/proxyfoo/seg.ts'' = ''/proxyfoo/seg.ts''
   \<and> processLine api b bp ''/proxy''
        (''#EXT-X-MAP:URI='' @ [CHR 0x22] @ ''/proxyfoo/init.mp4'' @ [CHR 0x22])
        = ''#EXT-X-MAP:URI='' @ [CHR 0x22] @ ''/proxyfoo/init.mp4'' @ [CHR 0x22]
   \<and> (newUrl api u = Some b \<longrightarrow>
        processM3u8 api ''/proxyfoo/seg.ts'' u ''/proxy'' = ''/proxyfoo/seg.ts'')"
proof -
  have seg: "processLine api b bp ''/proxy'' ''/proxyfoo/seg.ts'' = ''/proxyfoo/seg.ts''" for bp
    by (simp add: processLine_def str_eval)
  have "processLine api b bp ''/proxy''
        (''#EXT-X-MAP:URI='' @ [CHR 0x22] @ ''/proxyfoo/init.mp4'' @ [CHR 0x22])
        = ''#EXT-X-MAP:URI='' @ [CHR 0x22] @ ''/proxyfoo/init.mp4'' @ [CHR 0x22]"
    by (simp add: processLine_def str_eval)
  moreover have "newUrl api u = Some b \<longrightarrow>
        processM3u8 api ''/proxyfoo/seg.ts'' u ''/proxy'' = ''/proxyfoo/seg.ts''"
    by (simp add: processM3u8_def seg)
  moreover have "startsWith (trim l) ''#'' \<and> (\<forall>v \<in> set (uriMatches l). startsWith v p) \<longrightarrow>
        processLine api b bp p l = l"
    using processLine_directive_kept [of l p api b bp] by auto
  moreover have "trim l \<noteq> [] \<and> \<not> startsWith (trim l) ''#'' \<and> startsWith (trim l) p \<longrightarrow>
      processLine api b bp p l = l"
    using processLine_uri_kept [of l p api b bp] by auto
  ultimately show ?thesis
    using seg uriLoop_skip [of v p api b bp rest pl] by blast
qed

theorem processM3u8_prefix_guard_witness:
  "processM3u8 scenarioApi ''/proxyfoo/seg.ts'' sourceUrl ''/proxy'' = ''/proxyfoo/seg.ts''
   \<and> processLine scenarioApi
        \<lparr>protocol = ''https:'', hostname = ''cdn.example.com'', host = ''cdn.example.com''\<rparr>
        (basePathOf sourceUrl) ''/proxy'' ''  /proxy?url=x  '' = ''  /proxy?url=x  ''"
proof -
  let ?b = "\<lparr>protocol = ''https:'', hostname = ''cdn.example.com'', host = ''cdn.example.com''\<rparr>"
  note T = processM3u8_prefix_guard [of "''  /proxy?url=x  ''" "''/proxy''" scenarioApi ?b
      "basePathOf sourceUrl" _ _ _ sourceUrl]
  have "newUrl scenarioApi sourceUrl = Some ?b"
    by (simp add: scenarioApi_def)
  with T have "processM3u8 scenarioApi ''/proxyfoo/seg.ts'' sourceUrl ''/proxy''
      = ''/proxyfoo/seg.ts''"
    by blast
  moreover have "trim ''  /proxy?url=x  '' \<noteq> [] \<and> \<not> startsWith (trim ''  /proxy?url=x  '') ''#''
      \<and> startsWith (trim ''  /proxy?url=x  '') ''/proxy''"
    by (simp add: str_eval)
  with T have "processLine scenarioApi ?b (basePathOf sourceUrl) ''/proxy'' ''  /proxy?url=x  ''
      = ''  /proxy?url=x  ''"
    by blast
  ultimately show ?thesis by simp
qed

text \<open>
  As C10 words it, a directive line is emitted unchanged as soon as a URI attribute value on
  it begins with the proxy base path.  In \<open>#EXT-X-PART:URI="/proxyfoo/a.ts",URI="key.bin"\<close>
  the first value begins with \<open>/proxy\<close> and is skipped, and the line is emitted with its
  second attribute rewritten.
\<close>

theorem processM3u8_mixed_line_counterexample:
  "uriMatches mixedLine = [''/proxyfoo/a.ts'', ''key.bin'']
   \<and> startsWith ''/proxyfoo/a.ts'' ''/proxy''
   \<and> processM3u8 scenarioApi mixedLine sourceUrl ''/proxy'' = mixedLineRewritten
   \<and> mixedLineRewritten \<noteq> mixedLine"
proof -
  have "uriMatches mixedLine = [''/proxyfoo/a.ts'', ''key.bin'']"
    by (simp add: mixedLine_def str_eval)
  moreover have "processM3u8 scenarioApi mixedLine sourceUrl ''/proxy'' = mixedLineRewritten"
    by (simp add: processM3u8_def scenarioApi_def basePathOf_sourceUrl processLine_def
        proxiedOf_def absoluteOf_def mixedLine_def mixedLineRewritten_def str_eval)
  moreover have "mixedLineRewritten \<noteq> mixedLine"
    by (simp add: mixedLine_def mixedLineRewritten_def dquote_def)
  ultimately show ?thesis
    by (simp add: startsWith_def)
qed

subsection \<open>A second pass\<close>

text \<open>
  Splitting what \<open>join\<close> has produced gives the lines back when none of them holds a line
  feed and none but the last ends in a carriage return.
\<close>

lemma splitLines_not_empty: "splitLines t \<noteq> []"
  by (induction t) (auto split: list.splits)

lemma splitLines_no_linefeed: "l \<in> set (splitLines t) \<Longrightarrow> CHR 0x0A \<notin> set l"
proof (induction t arbitrary: l rule: splitLines.induct)
  case 1
  then show ?case by simp
next
  case (2 c cs)
  show ?case
  proof (cases "c = CHR 0x0A")
    case True
    with "2.prems" "2.IH"(1) show ?thesis by auto
  next
    case nl: False
    show ?thesis
    proof (cases "c = CHR 0x0D \<and> cs \<noteq> [] \<and> hd cs = CHR 0x0A")
      case True
      with "2.prems" "2.IH"(2) nl show ?thesis by auto
    next
      case False
      obtain x xs where s: "splitLines cs = x # xs"
        using splitLines_not_empty [of cs] by (cases "splitLines cs") auto
      from "2.prems" nl False s have "l = c # x \<or> l \<in> set xs"
        by (auto split: if_splits)
      with "2.IH"(3) [OF nl False] s nl show ?thesis
        by auto
    qed
  qed
qed

lemma splitLines_single: "CHR 0x0A \<notin> set l \<Longrightarrow> splitLines l = [l]"
proof (induction l)
  case Nil
  then show ?case by simp
next
  case (Cons c l)
  then have "\<not> (l \<noteq> [] \<and> hd l = CHR 0x0A)"
    by (cases l) auto
  with Cons show ?case by auto
qed

lemma splitLines_append:
  "CHR 0x0A \<notin> set l \<Longrightarrow> \<not> endsWith l [CHR 0x0D] \<Longrightarrow>
     splitLines (l @ CHR 0x0A # r) = l # splitLines r"
proof (induction l)
  case Nil
  then show ?case by simp
next
  case (Cons c l)
  have nl: "c \<noteq> CHR 0x0A" and "CHR 0x0A \<notin> set l"
    using Cons.prems(1) by auto
  have e: "\<not> endsWith l [CHR 0x0D]"
    using Cons.prems(2) by (auto simp: endsWith_def suffix_Cons)
  have "\<not> (c = CHR 0x0D \<and> hd (l @ CHR 0x0A # r) = CHR 0x0A)"
  proof
    assume a: "c = CHR 0x0D \<and> hd (l @ CHR 0x0A # r) = CHR 0x0A"
    with \<open>CHR 0x0A \<notin> set l\<close> have "l = []"
      by (cases l) auto
    with a Cons.prems(2) show False
      by (simp add: endsWith_def)
  qed
  with Cons.IH [OF \<open>CHR 0x0A \<notin> set l\<close> e] nl show ?case
    by auto
qed

lemma splitLines_joinLines:
  "ls \<noteq> [] \<Longrightarrow> \<forall>l \<in> set ls. CHR 0x0A \<notin> set l \<Longrightarrow>
     \<forall>l \<in> set (butlast ls). \<not> endsWith l [CHR 0x0D] \<Longrightarrow>
     splitLines (joinLines ls) = ls"
proof (induction ls rule: joinLines.induct)
  case 1
  then show ?case by simp
next
  case (2 l)
  then show ?case by (simp add: splitLines_single)
next
  case (3 l v va)
  then show ?case by (simp add: splitLines_append)
qed

text \<open>
  The characters \<open>encodeURIComponent\<close> produces are unreserved ones and \<open>%\<close>: no white space,
  no line break, no double quote and no \<open>$\<close>.
\<close>

lemma hexDigit_unreserved: "uriUnreserved (hexDigit n)"
proof -
  have "hexDigit n \<in> set ''0123456789ABCDEF''"
    unfolding hexDigit_def by (rule nth_mem) simp
  then show ?thesis
    by (auto simp: uriUnreserved_def)
qed

lemma encoded_chars:
  "x \<in> set (encodeURIComponent s) \<Longrightarrow> uriUnreserved x \<or> x = CHR ''%''"
  by (auto simp: encodeURIComponent_def percentEncode_def hexDigit_unreserved split: if_splits)

lemma unreserved_plain:
  assumes "uriUnreserved x \<or> x = CHR ''%'' \<or> x = CHR ''=''"
  shows "x \<noteq> CHR 0x0A" and "x \<noteq> CHR 0x0D" and "x \<noteq> dquote" and "x \<noteq> CHR ''$''"
    and "\<forall>w \<in> set whiteSpace. last w \<noteq> x"
  using assms by (auto simp: uriUnreserved_def dquote_def whiteSpace_def)

lemma stripLeading_id: "leadingSpace W s = 0 \<Longrightarrow> stripLeading W s = s"
  by (cases s) auto

lemma leadingSpace_hd:
  assumes "s \<noteq> []" and "\<forall>w \<in> set W. w \<noteq> [] \<and> hd w \<noteq> hd s"
  shows "leadingSpace W s = 0"
proof -
  have "find (\<lambda>w. prefix w s) W = None"
  proof (rule ccontr)
    assume "find (\<lambda>w. prefix w s) W \<noteq> None"
    then obtain w where "w \<in> set W" and "prefix w s"
      by (auto simp: find_None_iff)
    with assms show False
      by (cases w; cases s) auto
  qed
  then show ?thesis
    by (simp add: leadingSpace_def)
qed

lemma processLine_uri_cases:
  assumes "\<not> startsWith (trim l) ''#''"
  shows "processLine api b bp p l = l
    \<or> (\<exists>P. proxiedOf api b bp p (trim l) = Some P \<and> processLine api b bp p l = P)"
  using assms by (auto simp: processLine_def Let_def split: option.splits)

text \<open>
  Whether a line is a directive is decided by its white space and its first other
  character, which stand before the first \<open>U\<close> of the line.
\<close>

lemma stripLeading_suffix: "suffix (stripLeading W s) s"
proof (induction W s rule: stripLeading.induct)
  case (1 ws)
  then show ?case by simp
next
  case (2 ws c cs)
  show ?case
  proof (cases "leadingSpace ws (c # cs) = 0")
    case True
    then show ?thesis by simp
  next
    case False
    with 2 have "suffix (stripLeading ws (c # cs)) (drop (leadingSpace ws (c # cs) - 1) cs)"
      by simp
    then show ?thesis
      by (meson suffix_ConsI suffix_drop suffix_order.trans)
  qed
qed

lemma leadingSpace_found:
  assumes "leadingSpace W s \<noteq> 0"
  obtains w where "w \<in> set W" and "prefix w s" and "leadingSpace W s = length w"
    and "find (\<lambda>w. prefix w s) W = Some w"
proof -
  from assms obtain w where f: "find (\<lambda>w. prefix w s) W = Some w"
    by (auto simp: leadingSpace_def split: option.splits)
  then have "w \<in> set W" and "prefix w s"
    by (auto simp: find_Some_iff)
  with f that show thesis
    by (simp add: leadingSpace_def)
qed

lemma stripLeading_keeps:
  "\<forall>w \<in> set W. c \<notin> set w \<Longrightarrow> c \<in> set s \<Longrightarrow> c \<in> set (stripLeading W s)"
proof (induction W s rule: stripLeading.induct)
  case (1 ws)
  then show ?case by simp
next
  case (2 ws x xs)
  show ?case
  proof (cases "leadingSpace ws (x # xs) = 0")
    case True
    with 2 show ?thesis by simp
  next
    case False
    then obtain w where w: "w \<in> set ws" "prefix w (x # xs)"
      "leadingSpace ws (x # xs) = length w"
      by (rule leadingSpace_found)
    then obtain r where r: "x # xs = w @ r"
      by (auto simp: prefix_def)
    from False w(3) have "w \<noteq> []" by auto
    with r have d: "drop (length w - 1) xs = r"
      by (cases w) auto
    from "2.prems"(2) r "2.prems"(1) w(1) have "c \<in> set r"
      by auto
    with "2.IH" False "2.prems"(1) w(3) d show ?thesis
      by simp
  qed
qed

lemma whiteSpace_bytes:
  "\<forall>w \<in> set whiteSpace. CHR ''#'' \<notin> set w \<and> CHR ''U'' \<notin> set w"
  by (simp add: whiteSpace_def)

lemma trimEnd_prefix: "prefix (trimEnd s) s"
  using stripLeading_suffix [of "map rev whiteSpace" "rev s"]
  by (simp add: trimEnd_def suffix_to_prefix)

lemma directive_iff: "startsWith (trim s) ''#'' \<longleftrightarrow> startsWith (trimStart s) ''#''"
proof
  assume "startsWith (trim s) ''#''"
  then obtain x where "trimEnd (trimStart s) = CHR ''#'' # x"
    by (auto simp: startsWith_def trim_def prefix_def)
  with trimEnd_prefix [of "trimStart s"] show "startsWith (trimStart s) ''#''"
    by (auto simp: startsWith_def prefix_def)
next
  assume "startsWith (trimStart s) ''#''"
  then obtain x where x: "trimStart s = CHR ''#'' # x"
    by (auto simp: startsWith_def prefix_def)
  have "CHR ''#'' \<in> set (stripLeading (map rev whiteSpace) (rev (CHR ''#'' # x)))"
    using whiteSpace_bytes by (intro stripLeading_keeps) auto
  then have "trimEnd (CHR ''#'' # x) \<noteq> []"
    by (auto simp: trimEnd_def)
  with trimEnd_prefix [of "CHR ''#'' # x"] have "\<exists>y. trimEnd (CHR ''#'' # x) = CHR ''#'' # y"
    by (cases "trimEnd (CHR ''#'' # x)") (auto simp: prefix_def)
  with x show "startsWith (trim s) ''#''"
    by (auto simp: startsWith_def trim_def)
qed

lemma prefix_before_U:
  assumes "CHR ''U'' \<notin> set w"
  shows "prefix w (g @ CHR ''U'' # y) \<longleftrightarrow> prefix w g"
proof
  assume "prefix w (g @ CHR ''U'' # y)"
  then consider "prefix w g" | us where "w = g @ us" "prefix us (CHR ''U'' # y)"
    by (auto simp: prefix_append)
  then show "prefix w g"
  proof cases
    case 1
    then show ?thesis .
  next
    case 2
    with assms show ?thesis
      by (cases us) auto
  qed
next
  assume "prefix w g"
  then show "prefix w (g @ CHR ''U'' # y)"
    by (rule prefix_prefix)
qed

lemma leadingSpace_before_U:
  "leadingSpace whiteSpace (g @ CHR ''U'' # y) = leadingSpace whiteSpace (g @ CHR ''U'' # y')"
proof -
  have "find (\<lambda>w. prefix w (g @ CHR ''U'' # y)) whiteSpace
      = find (\<lambda>w. prefix w (g @ CHR ''U'' # y')) whiteSpace"
    using whiteSpace_bytes by (intro find_cong) (auto simp: prefix_before_U)
  then show ?thesis
    by (simp add: leadingSpace_def)
qed

lemma stripLeading_before_U:
  "startsWith (stripLeading whiteSpace (g @ CHR ''U'' # y)) ''#'' \<Longrightarrow>
     startsWith (stripLeading whiteSpace (g @ CHR ''U'' # y')) ''#''"
proof (induction g rule: length_induct)
  case (1 g)
  show ?case
  proof (cases g)
    case Nil
    have "leadingSpace whiteSpace (CHR ''U'' # y) = 0"
      by (rule leadingSpace_hd) (simp_all add: whiteSpace_def)
    with "1.prems" Nil show ?thesis
      by (simp add: startsWith_def)
  next
    case (Cons c g')
    let ?n = "leadingSpace whiteSpace (g @ CHR ''U'' # y)"
    have n: "leadingSpace whiteSpace (g @ CHR ''U'' # y') = ?n"
      by (rule leadingSpace_before_U)
    show ?thesis
    proof (cases "?n = 0")
      case True
      with "1.prems" Cons n show ?thesis
        by (simp add: startsWith_def)
    next
      case False
      then obtain w where w: "w \<in> set whiteSpace" "prefix w (g @ CHR ''U'' # y)"
        "?n = length w"
        by (rule leadingSpace_found)
      with whiteSpace_bytes have "prefix w g"
        by (simp add: prefix_before_U)
      then have le: "length w \<le> length g"
        by (rule prefix_length_le)
      from False w(3) have pos: "0 < length w" by simp
      let ?g = "drop (length w - 1) g'"
      have d: "drop (length w - 1) (g' @ CHR ''U'' # z) = ?g @ CHR ''U'' # z" for z
        using le Cons by simp
      have "length ?g < length g"
        using Cons by simp
      moreover have "startsWith (stripLeading whiteSpace (?g @ CHR ''U'' # y)) ''#''"
        using "1.prems" Cons False w(3) d [of y] by simp
      ultimately have "startsWith (stripLeading whiteSpace (?g @ CHR ''U'' # y')) ''#''"
        using "1.IH" by blast
      with Cons False n w(3) d [of y'] show ?thesis
        by simp
    qed
  qed
qed

lemma directive_before_U:
  "startsWith (trim (g @ CHR ''U'' # y)) ''#'' \<Longrightarrow> startsWith (trim (g @ CHR ''U'' # y')) ''#''"
  using stripLeading_before_U [of g y y'] by (simp add: directive_iff trimStart_def)

text \<open>
  A match of \<open>URI="([^"]+)"\<close> is the text \<open>URI="\<close>, a value without a double quote that is not
  empty, and a double quote.
\<close>

lemma uriMatchHere_Some:
  assumes "uriMatchHere s = Some (g, r)"
  shows "s = ''URI='' @ dquote # g @ dquote # r" and "g \<noteq> []" and "dquote \<notin> set g"
proof -
  let ?t = "drop 5 s"
  from assms have p: "prefix (''URI='' @ [dquote]) s"
    and g: "g = takeWhile (\<lambda>c. c \<noteq> dquote) ?t"
    and r: "r = tl (dropWhile (\<lambda>c. c \<noteq> dquote) ?t)"
    and ne: "g \<noteq> []" "dropWhile (\<lambda>c. c \<noteq> dquote) ?t \<noteq> []"
    by (auto simp: uriMatchHere_def Let_def split: if_splits)
  from ne(2) have "hd (dropWhile (\<lambda>c. c \<noteq> dquote) ?t) = dquote"
    using hd_dropWhile [of "\<lambda>c. c \<noteq> dquote" ?t] by auto
  with ne(2) r have "dropWhile (\<lambda>c. c \<noteq> dquote) ?t = dquote # r"
    by (cases "dropWhile (\<lambda>c. c \<noteq> dquote) ?t") auto
  with g have t: "?t = g @ dquote # r"
    using takeWhile_dropWhile_id [of "\<lambda>c. c \<noteq> dquote" ?t] by simp
  from p have "s = (''URI='' @ [dquote]) @ ?t"
    by (auto simp: prefix_def)
  with t show "s = ''URI='' @ dquote # g @ dquote # r"
    by simp
  show "g \<noteq> []" by (rule ne(1))
  show "dquote \<notin> set g"
    unfolding g using set_takeWhileD by fastforce
qed

lemma takeWhile_value: "q \<notin> set x \<Longrightarrow> takeWhile (\<lambda>c. c \<noteq> q) (x @ q # s) = x"
  by (induction x) auto

lemma dropWhile_value: "q \<notin> set x \<Longrightarrow> dropWhile (\<lambda>c. c \<noteq> q) (x @ q # s) = q # s"
  by (induction x) auto

lemma uriMatchHere_attribute:
  assumes "x \<noteq> []" and "dquote \<notin> set x"
  shows "uriMatchHere (''URI='' @ dquote # x @ dquote # s) = Some (x, s)"
  using assms by (simp add: uriMatchHere_def Let_def takeWhile_value dropWhile_value)

lemma prefix_long: "length p \<le> length g \<Longrightarrow> prefix p (g @ y) \<longleftrightarrow> prefix p g"
  by (auto simp: prefix_append)

lemma uriMatchHere_None: "\<not> prefix (''URI='' @ [dquote]) s \<Longrightarrow> uriMatchHere s = None"
  unfolding uriMatchHere_def by (rule if_not_P)

text \<open>
  The text \<open>URI="\<close> starts nowhere inside an attribute whose value does not end in \<open>URI=\<close>,
  and an attribute that starts before another one ends where that one opens.
\<close>

lemma same_value:
  assumes "prefix (''URI='' @ dquote # x @ [dquote]) (''URI='' @ dquote # v @ dquote # y)"
    and "dquote \<notin> set x" and "dquote \<notin> set v"
  shows "x = v"
proof -
  from assms(1) have "prefix (x @ [dquote]) (v @ dquote # y)"
    by simp
  then obtain z where "v @ dquote # y = x @ dquote # z"
    by (auto simp: prefix_def)
  then have "takeWhile (\<lambda>c. c \<noteq> dquote) (v @ dquote # y)
      = takeWhile (\<lambda>c. c \<noteq> dquote) (x @ dquote # z)"
    by simp
  with assms(2,3) show ?thesis
    by (simp add: takeWhile_value)
qed

lemma value_region:
  "dquote \<notin> set x \<Longrightarrow> \<not> suffix ''URI='' x \<Longrightarrow> j \<le> length x \<Longrightarrow>
     \<not> prefix (''URI='' @ [dquote]) (drop j (x @ dquote # y))"
proof (induction x arbitrary: j)
  case Nil
  then show ?case by (simp add: dquote_def)
next
  case (Cons c x)
  show ?case
  proof (cases j)
    case 0
    show ?thesis
    proof
      assume "prefix (''URI='' @ [dquote]) (drop j ((c # x) @ dquote # y))"
      with 0 have c: "c = CHR ''U''" and "prefix (''RI='' @ [dquote]) (x @ dquote # y)"
        by simp_all
      then obtain z where "x @ dquote # y = ''RI='' @ dquote # z"
        by (auto simp: prefix_def)
      then have "takeWhile (\<lambda>c. c \<noteq> dquote) (x @ dquote # y)
          = takeWhile (\<lambda>c. c \<noteq> dquote) (''RI='' @ dquote # z)"
        by simp
      moreover have "takeWhile (\<lambda>c. c \<noteq> dquote) (x @ dquote # y) = x"
        using Cons.prems(1) by (intro takeWhile_value) simp
      moreover have "takeWhile (\<lambda>c. c \<noteq> dquote) (''RI='' @ dquote # z) = ''RI=''"
        by (intro takeWhile_value) (simp add: dquote_def)
      ultimately have "x = ''RI=''"
        by simp
      with c Cons.prems(2) show False
        by simp
    qed
  next
    case (Suc k)
    have "\<not> suffix ''URI='' x"
      using Cons.prems(2) by (auto simp: suffix_Cons)
    with Cons.IH [of k] Cons.prems(1,3) Suc show ?thesis
      by simp
  qed
qed

lemma attribute_plain:
  assumes "dquote \<notin> set x" and "\<not> suffix ''URI='' x" and "0 < k" and "k < length x + 6"
  shows "\<not> prefix (''URI='' @ [dquote]) (drop k (''URI='' @ dquote # x @ dquote # y))"
proof (cases "k < 5")
  case True
  with assms(3) consider "k = 1" | "k = 2" | "k = 3" | "k = 4"
    by linarith
  then show ?thesis
    by cases (simp_all add: dquote_def numeral_2_eq_2 numeral_3_eq_3 eval_nat_numeral)
next
  case False
  define u where "u = ''URI='' @ [dquote]"
  then have "length u = 5"
    by simp
  with False have "drop k (u @ x @ dquote # y) = drop (k - 5) (x @ dquote # y)"
    by simp
  then have "drop k (''URI='' @ dquote # x @ dquote # y) = drop (k - 5) (x @ dquote # y)"
    by (simp add: u_def)
  moreover have "k - 5 \<le> length x"
    using assms(4) by simp
  ultimately show ?thesis
    using value_region [OF assms(1,2), of "k - 5" y] by simp
qed

lemma takeWhile_before: "\<not> P q \<Longrightarrow> length (takeWhile P (w @ q # y)) \<le> length w"
  by (induction w) auto

lemma pattern_inside:
  assumes "dquote \<notin> set x" and "e \<noteq> []"
    and "prefix (''URI='' @ dquote # x @ [dquote]) (e @ ''URI='' @ dquote # y)"
  shows "prefix (''URI='' @ dquote # x @ [dquote]) (e @ ''URI='' @ [dquote])"
proof -
  let ?w = "drop 5 (e @ ''URI='')"
  from assms(3) obtain z where z: "e @ ''URI='' @ dquote # y = (''URI='' @ dquote # x @ [dquote]) @ z"
    by (auto simp: prefix_def)
  define g where "g = e @ ''URI=''"
  then have "5 \<le> length g"
    using assms(2) by (cases e) simp_all
  then have "drop 5 (g @ dquote # y) = drop 5 g @ dquote # y"
    by simp
  then have a: "drop 5 (e @ ''URI='' @ dquote # y) = ?w @ dquote # y"
    by (simp add: g_def)
  have b: "drop 5 ((''URI='' @ dquote # x @ [dquote]) @ z) = x @ dquote # z"
    by simp
  have "drop 5 (e @ ''URI='' @ dquote # y) = drop 5 ((''URI='' @ dquote # x @ [dquote]) @ z)"
    using z by (rule arg_cong)
  then have "?w @ dquote # y = x @ dquote # z"
    unfolding a b .
  then have "takeWhile (\<lambda>c. c \<noteq> dquote) (?w @ dquote # y) = x"
    using assms(1) by (simp add: takeWhile_value)
  then have "length x \<le> length ?w"
    using takeWhile_before [of "\<lambda>c. c \<noteq> dquote" dquote ?w y] by simp
  then have "length (''URI='' @ dquote # x @ [dquote]) \<le> length (e @ ''URI='' @ [dquote])"
    using assms(2) by (cases e) simp_all
  with assms(3) prefix_long [of "''URI='' @ dquote # x @ [dquote]" "e @ ''URI='' @ [dquote]" y]
  show ?thesis
    by simp
qed

text \<open>The first occurrence of a text is behind every place at which the text does not start.\<close>

lemma firstOccurrence_Some: "firstOccurrence s pat = Some (f, b) \<Longrightarrow> s = f @ pat @ b"
proof (induction s arbitrary: f)
  case Nil
  then show ?case by (simp split: if_splits)
next
  case (Cons c cs)
  show ?case
  proof (cases "prefix pat (c # cs)")
    case True
    with Cons.prems show ?thesis
      by (auto simp: prefix_def)
  next
    case False
    with Cons.prems obtain f' where "firstOccurrence cs pat = Some (f', b)" and "f = c # f'"
      by (auto split: option.splits)
    with Cons.IH [of f'] show ?thesis
      by simp
  qed
qed

lemma firstOccurrence_behind:
  "\<forall>j < length d. \<not> prefix pat (drop j (d @ s)) \<Longrightarrow> prefix pat s \<Longrightarrow> pat \<noteq> [] \<Longrightarrow>
     firstOccurrence (d @ s) pat = Some (d, drop (length pat) s)"
proof (induction d)
  case Nil
  then show ?case by (cases s) auto
next
  case (Cons a d)
  from Cons.prems(1) have "\<not> prefix pat ((a # d) @ s)"
    by force
  moreover have "\<forall>j < length d. \<not> prefix pat (drop j (d @ s))"
  proof (intro allI impI)
    fix j assume "j < length d"
    with Cons.prems(1) have "\<not> prefix pat (drop (Suc j) ((a # d) @ s))"
      by (metis Suc_less_eq length_Cons)
    then show "\<not> prefix pat (drop j (d @ s))"
      by simp
  qed
  ultimately show ?case
    using Cons.IH Cons.prems(2,3) by simp
qed

text \<open>A replacement text without a replacement pattern is taken as it is.\<close>

lemma getSubstitution_literal: "\<not> replacementPattern r \<Longrightarrow> getSubstitution m f b r = r"
proof (induction m f b r rule: getSubstitution.induct)
  case (1 m f b)
  then show ?case by simp
next
  case (2 m f b c)
  then show ?case by simp
next
  case (3 m f b c d r)
  from "3.prems" have h: "\<not> (c = CHR ''$'' \<and> d = CHR ''$'')" "\<not> (c = CHR ''$'' \<and> d = CHR ''&'')"
    "\<not> (c = CHR ''$'' \<and> d = CHR 0x60)" "\<not> (c = CHR ''$'' \<and> d = CHR 0x27)"
    and t: "\<not> replacementPattern (d # r)"
    by (auto simp: replacementPattern_def)
  from "3.IH"(5) h t show ?case
    by auto
qed

lemma includes_two_absent: "a \<notin> set s \<Longrightarrow> \<not> includesStr s [a, b]"
  by (induction s) auto

lemma includes_two_behind: "a \<notin> set x \<Longrightarrow> includesStr (x @ y) [a, b] = includesStr y [a, b]"
  by (induction x) auto

lemma includes_two_append:
  "a \<notin> set y \<Longrightarrow> \<not> prefix [b] y \<Longrightarrow> includesStr (x @ y) [a, b] = includesStr x [a, b]"
proof (induction x)
  case Nil
  then show ?case by (simp add: includes_two_absent)
next
  case (Cons c x)
  then show ?case by (cases x) auto
qed

lemma proxiedOf_Some:
  "proxiedOf api b bp p r = Some P \<Longrightarrow> \<exists>a. P = p @ ''?url='' @ encodeURIComponent a"
  by (auto simp: proxiedOf_def split: option.splits)
text \<open>
  \<open>trim\<close> leaves a proxied URL alone when the proxy base path begins with no white space, so
  a proxied URL is a line that the rewriter keeps.
\<close>

lemma leadingSpace_zero:
  assumes "\<forall>w \<in> set W. w \<noteq> []"
  shows "leadingSpace W s = 0 \<longleftrightarrow> (\<forall>w \<in> set W. \<not> prefix w s)"
proof
  assume z: "leadingSpace W s = 0"
  show "\<forall>w \<in> set W. \<not> prefix w s"
  proof (rule ccontr)
    assume "\<not> (\<forall>w \<in> set W. \<not> prefix w s)"
    then have "find (\<lambda>w. prefix w s) W \<noteq> None"
      by (auto simp: find_None_iff)
    then obtain w where f: "find (\<lambda>w. prefix w s) W = Some w"
      by auto
    then have "w \<in> set W"
      by (auto simp: find_Some_iff)
    with assms f z show False
      by (auto simp: leadingSpace_def)
  qed
next
  assume "\<forall>w \<in> set W. \<not> prefix w s"
  then have "find (\<lambda>w. prefix w s) W = None"
    by (auto simp: find_None_iff)
  then show "leadingSpace W s = 0"
    by (simp add: leadingSpace_def)
qed

lemma whiteSpace_not_empty: "\<forall>w \<in> set whiteSpace. w \<noteq> [] \<and> CHR ''?'' \<notin> set w"
  by (simp add: whiteSpace_def)

lemma trimStart_fixed:
  assumes "trimStart p = p"
  shows "leadingSpace whiteSpace p = 0"
proof (cases p)
  case Nil
  then show ?thesis
    using whiteSpace_not_empty leadingSpace_zero [of whiteSpace "[]"] by auto
next
  case (Cons c cs)
  show ?thesis
  proof (rule ccontr)
    assume n: "leadingSpace whiteSpace p \<noteq> 0"
    let ?r = "drop (leadingSpace whiteSpace p - 1) cs"
    from n Cons have "trimStart p = stripLeading whiteSpace ?r"
      by (simp add: trimStart_def)
    moreover have "length (stripLeading whiteSpace ?r) \<le> length ?r"
      using stripLeading_suffix [of whiteSpace ?r] by (rule suffix_length_le)
    moreover have "length ?r < length p"
      using Cons by simp
    ultimately show False
      using assms by simp
  qed
qed

lemma prefix_before:
  assumes "c \<notin> set w"
  shows "prefix w (g @ c # y) \<longleftrightarrow> prefix w g"
proof
  assume "prefix w (g @ c # y)"
  then consider "prefix w g" | us where "w = g @ us" "prefix us (c # y)"
    by (auto simp: prefix_append)
  then show "prefix w g"
  proof cases
    case 1
    then show ?thesis .
  next
    case 2
    with assms show ?thesis
      by (cases us) auto
  qed
next
  assume "prefix w g"
  then show "prefix w (g @ c # y)"
    by (rule prefix_prefix)
qed

lemma leadingSpace_query:
  assumes "leadingSpace whiteSpace p = 0"
  shows "leadingSpace whiteSpace (p @ CHR ''?'' # r) = 0"
proof -
  have e: "\<forall>w \<in> set whiteSpace. w \<noteq> []"
    using whiteSpace_not_empty by blast
  from assms have "\<forall>w \<in> set whiteSpace. \<not> prefix w p"
    using leadingSpace_zero [OF e] by blast
  then have "\<forall>w \<in> set whiteSpace. \<not> prefix w (p @ CHR ''?'' # r)"
    using whiteSpace_not_empty by (simp add: prefix_before)
  then show ?thesis
    using leadingSpace_zero [OF e] by blast
qed

lemma trim_plain:
  assumes "leadingSpace whiteSpace s = 0" and "s \<noteq> []"
    and "\<forall>w \<in> set whiteSpace. last w \<noteq> last s"
  shows "trim s = s"
proof -
  from assms(1) have a: "trimStart s = s"
    by (simp add: trimStart_def stripLeading_id)
  have "leadingSpace (map rev whiteSpace) (rev s) = 0"
  proof (rule leadingSpace_hd)
    show "rev s \<noteq> []" using assms(2) by simp
    show "\<forall>w \<in> set (map rev whiteSpace). w \<noteq> [] \<and> hd w \<noteq> hd (rev s)"
      using assms(2,3) whiteSpace_not_empty by (auto simp: hd_rev)
  qed
  then have "trimEnd s = s"
    by (simp add: trimEnd_def stripLeading_id)
  with a show ?thesis
    by (simp add: trim_def)
qed

lemma endsWith_last: "endsWith x [c] \<longleftrightarrow> x \<noteq> [] \<and> last x = c"
  by (cases x rule: rev_cases) (auto simp: endsWith_def)

lemma includes_char: "includesStr s pat \<Longrightarrow> c \<in> set pat \<Longrightarrow> c \<in> set s"
proof (induction s)
  case Nil
  then show ?case by simp
next
  case (Cons a s)
  then show ?case
    using set_mono_prefix [of pat "a # s"] by auto
qed

lemma proxied_shape:
  assumes "proxiedOf api b bp p r = Some P"
  shows "P \<noteq> []" and "startsWith P p"
    and "uriUnreserved (last P) \<or> last P = CHR ''%'' \<or> last P = CHR ''=''"
    and "CHR 0x0A \<notin> set p \<Longrightarrow> CHR 0x0A \<notin> set P"
    and "dquote \<notin> set p \<Longrightarrow> dquote \<notin> set P"
    and "\<not> suffix ''URI='' P"
    and "\<not> replacementPattern p \<Longrightarrow> \<not> replacementPattern (''URI='' @ dquote # P @ [dquote])"
    and "leadingSpace whiteSpace p = 0 \<Longrightarrow> leadingSpace whiteSpace P = 0"
proof -
  from assms obtain a where P: "P = p @ ''?url='' @ encodeURIComponent a"
    using proxiedOf_Some by blast
  show "P \<noteq> []" and "startsWith P p"
    by (simp_all add: P startsWith_def)
  show l: "uriUnreserved (last P) \<or> last P = CHR ''%'' \<or> last P = CHR ''=''"
  proof (cases "encodeURIComponent a = []")
    case True
    then show ?thesis by (simp add: P)
  next
    case False
    then have "last P \<in> set (encodeURIComponent a)"
      by (simp add: P)
    then show ?thesis
      using encoded_chars by blast
  qed
  show "CHR 0x0A \<notin> set P" if "CHR 0x0A \<notin> set p"
    using that encoded_chars [of "CHR 0x0A" a] unreserved_plain(1) [of "CHR 0x0A"]
    by (auto simp: P)
  show "dquote \<notin> set P" if "dquote \<notin> set p"
    using that encoded_chars [of dquote a] unreserved_plain(3) [of dquote]
    by (auto simp: P dquote_def)
  show "\<not> suffix ''URI='' P"
  proof
    assume "suffix ''URI='' P"
    then obtain z where z: "P = z @ ''URI=''"
      by (auto simp: suffix_def)
    show False
    proof (cases "encodeURIComponent a = []")
      case True
      with z show ?thesis
        by (simp add: P)
    next
      case False
      then have "last P \<in> set (encodeURIComponent a)"
        by (simp add: P)
      moreover have "last P = CHR ''=''"
        by (simp add: z)
      ultimately show ?thesis
        using encoded_chars [of "CHR ''=''" a] by (auto simp: uriUnreserved_def)
    qed
  qed
  show "\<not> replacementPattern (''URI='' @ dquote # P @ [dquote])" if n: "\<not> replacementPattern p"
  proof -
    let ?t = "''?url='' @ encodeURIComponent a @ [dquote]"
    have t: "CHR ''$'' \<notin> set ?t"
      using encoded_chars [of "CHR ''$''" a] unreserved_plain(4) [of "CHR ''$''"]
      by (auto simp: dquote_def)
    have "includesStr ((''URI='' @ [dquote]) @ p @ ?t) [CHR ''$'', x] = includesStr p [CHR ''$'', x]"
      if "x \<noteq> CHR ''?''" for x
    proof -
      have "includesStr ((''URI='' @ [dquote]) @ p @ ?t) [CHR ''$'', x]
          = includesStr (p @ ?t) [CHR ''$'', x]"
        by (rule includes_two_behind) (simp add: dquote_def)
      also have "\<dots> = includesStr p [CHR ''$'', x]"
        using t that by (intro includes_two_append) simp_all
      finally show ?thesis .
    qed
    then have "replacementPattern ((''URI='' @ [dquote]) @ p @ ?t) = replacementPattern p"
      unfolding replacementPattern_def by simp
    with n show ?thesis
      by (simp add: P)
  qed
  show "leadingSpace whiteSpace P = 0" if "leadingSpace whiteSpace p = 0"
    using that leadingSpace_query [of p "''url='' @ encodeURIComponent a"] by (simp add: P)
qed

lemma proxied_stable:
  assumes "proxiedOf api b bp p r = Some P" and "trimStart p = p" and "dquote \<notin> set p"
  shows "processLine api b bp p P = P"
proof -
  note S = proxied_shape [OF assms(1)]
  have "leadingSpace whiteSpace P = 0"
    using assms(2) by (intro S(8) trimStart_fixed)
  then have t: "trim P = P"
    using S(1,3) unreserved_plain(5) [of "last P"] by (intro trim_plain) auto
  have "\<not> includesStr P (''URI='' @ [dquote])"
    using S(5) [OF assms(3)] includes_char [of P "''URI='' @ [dquote]" dquote] by auto
  with t S(1,2) show ?thesis
    by (simp add: processLine_def)
qed

lemma proxied_no_return:
  assumes "proxiedOf api b bp p r = Some P"
  shows "\<not> endsWith P [CHR 0x0D]"
proof
  assume "endsWith P [CHR 0x0D]"
  then have "last P = CHR 0x0D"
    by (simp add: endsWith_last)
  with proxied_shape(3) [OF assms] unreserved_plain(2) [of "last P"] show False
    by auto
qed

text \<open>
  The loop leaves the last character of the line and brings no line feed, when the proxy
  base path holds no replacement pattern.
\<close>

lemma replaceFirst_found:
  "firstOccurrence l pat = Some (f, s) \<Longrightarrow> \<not> replacementPattern r \<Longrightarrow>
     replaceFirst l pat r = f @ r @ s"
  by (simp add: replaceFirst_def getSubstitution_literal)

lemma replaceFirst_literal:
  assumes "\<not> replacementPattern r"
  shows "replaceFirst l pat r = l
    \<or> (\<exists>f s. l = f @ pat @ s \<and> firstOccurrence l pat = Some (f, s) \<and> replaceFirst l pat r = f @ r @ s)"
proof (cases "firstOccurrence l pat")
  case None
  then show ?thesis by (simp add: replaceFirst_def)
next
  case (Some m)
  obtain f s where m: "m = (f, s)" by (cases m)
  from Some m firstOccurrence_Some [of l pat f s] have "l = f @ pat @ s"
    by simp
  with Some m assms show ?thesis
    by (simp add: replaceFirst_def getSubstitution_literal)
qed

lemma uriLoop_keeps:
  assumes "\<not> replacementPattern p"
  shows "(endsWith (uriLoop api b bp p vs l) [c] \<longleftrightarrow> endsWith l [c])
    \<and> (CHR 0x0A \<notin> set p \<and> CHR 0x0A \<notin> set l \<longrightarrow> CHR 0x0A \<notin> set (uriLoop api b bp p vs l))"
proof (induction vs arbitrary: l)
  case Nil
  then show ?case by simp
next
  case (Cons v vs)
  show ?case
  proof (cases "startsWith v p \<or> proxiedOf api b bp p v = None")
    case True
    then have "uriLoop api b bp p (v # vs) l = uriLoop api b bp p vs l"
      by (rule uriLoop_skip)
    with Cons.IH [of l] show ?thesis
      by simp
  next
    case False
    then obtain P where P: "proxiedOf api b bp p v = Some P" and n: "\<not> startsWith v p"
      by auto
    let ?pat = "''URI='' @ dquote # v @ [dquote]" and ?r = "''URI='' @ dquote # P @ [dquote]"
    let ?l = "replaceFirst l ?pat ?r"
    have u: "uriLoop api b bp p (v # vs) l = uriLoop api b bp p vs ?l"
      using P n by simp
    note S = proxied_shape [OF P]
    have "(endsWith ?l [c] \<longleftrightarrow> endsWith l [c])
      \<and> (CHR 0x0A \<notin> set p \<and> CHR 0x0A \<notin> set l \<longrightarrow> CHR 0x0A \<notin> set ?l)"
      using replaceFirst_literal [OF S(7) [OF assms], of l ?pat]
    proof
      assume "?l = l"
      then show ?thesis by simp
    next
      assume "\<exists>f s. l = f @ ?pat @ s \<and> firstOccurrence l ?pat = Some (f, s) \<and> ?l = f @ ?r @ s"
      then obtain f s where l: "l = f @ ?pat @ s" and r: "?l = f @ ?r @ s"
        by blast
      have "endsWith (f @ ?r @ s) [c] \<longleftrightarrow> endsWith (f @ ?pat @ s) [c]"
        by (cases s rule: rev_cases) (simp_all add: endsWith_last)
      moreover have "CHR 0x0A \<notin> set (f @ ?r @ s)" if "CHR 0x0A \<notin> set p" "CHR 0x0A \<notin> set (f @ ?pat @ s)"
        using that S(4) by (simp add: dquote_def)
      ultimately show ?thesis
        unfolding r using l by simp
    qed
    with Cons.IH [of ?l] show ?thesis
      unfolding u by simp
  qed
qed

text \<open>
  When no attribute value of a line ends in \<open>URI=\<close>, each replacement of the loop hits the
  attribute it is made for, so the loop gives every attribute its settled value.
\<close>

lemma settled_cases:
  obtains (kept) "startsWith v p \<or> proxiedOf api b bp p v = None" "settled api b bp p v = v"
  | (proxied) P where "\<not> startsWith v p" "proxiedOf api b bp p v = Some P"
      "settled api b bp p v = P" "P \<noteq> v"
proof (cases "startsWith v p \<or> proxiedOf api b bp p v = None")
  case True
  then have "settled api b bp p v = v"
    by (auto simp: settled_def)
  with True kept show ?thesis by blast
next
  case False
  then obtain P where P: "proxiedOf api b bp p v = Some P" and n: "\<not> startsWith v p"
    by auto
  then have "settled api b bp p v = P"
    by (simp add: settled_def)
  moreover have "P \<noteq> v"
    using proxied_shape(2) [OF P] n by auto
  ultimately show ?thesis
    using P n proxied by blast
qed

lemma settled_settled:
  "startsWith (settled api b bp p v) p \<or> proxiedOf api b bp p (settled api b bp p v) = None"
proof (cases rule: settled_cases [of v p api b bp])
  case kept
  then show ?thesis by auto
next
  case (proxied P)
  with proxied_shape(2) [OF proxied(2)] show ?thesis by simp
qed

lemma settled_fixed: "startsWith w p \<Longrightarrow> settled api b bp p w = w"
  by (simp add: settled_def)

lemma settled_value:
  assumes "dquote \<notin> set p" and "v \<noteq> []" and "dquote \<notin> set v"
  shows "settled api b bp p v \<noteq> []" and "dquote \<notin> set (settled api b bp p v)"
proof -
  have "settled api b bp p v \<noteq> [] \<and> dquote \<notin> set (settled api b bp p v)"
  proof (cases rule: settled_cases [of v p api b bp])
    case kept
    with assms show ?thesis by simp
  next
    case (proxied P)
    with proxied_shape(1,5) [OF proxied(2)] assms(1) show ?thesis by simp
  qed
  then show "settled api b bp p v \<noteq> []" and "dquote \<notin> set (settled api b bp p v)"
    by simp_all
qed

lemma attribute_open:
  "prefix (''URI='' @ dquote # x @ [dquote]) t \<Longrightarrow> prefix (''URI='' @ [dquote]) t"
  by (auto simp: prefix_def)

lemma behind_extend:
  assumes "\<forall>j < length d. \<not> Q (drop j (d @ a @ r))"
    and "\<forall>k < length a. \<not> Q (drop k (a @ r))"
  shows "\<forall>j < length (d @ a). \<not> Q (drop j ((d @ a) @ r))"
proof (intro allI impI)
  fix j assume j: "j < length (d @ a)"
  show "\<not> Q (drop j ((d @ a) @ r))"
  proof (cases "j < length d")
    case True
    with assms(1) show ?thesis by simp
  next
    case False
    with j have "j - length d < length a"
      by simp
    with assms(2) have "\<not> Q (drop (j - length d) (a @ r))"
      by blast
    with False show ?thesis by simp
  qed
qed

lemma attribute_clear:
  assumes "dquote \<notin> set w" and "g w = w"
    and "\<forall>k. 0 < k \<and> k < length w + 6 \<longrightarrow>
           \<not> prefix (''URI='' @ [dquote]) (drop k (''URI='' @ dquote # w @ dquote # r))"
  shows "\<forall>k < length (''URI='' @ dquote # w @ [dquote]).
           \<not> (\<exists>x. x \<noteq> [] \<and> dquote \<notin> set x \<and> g x \<noteq> x
                 \<and> prefix (''URI='' @ dquote # x @ [dquote])
                     (drop k ((''URI='' @ dquote # w @ [dquote]) @ r)))"
proof (intro allI impI notI)
  fix k
  assume k: "k < length (''URI='' @ dquote # w @ [dquote])"
    and "\<exists>x. x \<noteq> [] \<and> dquote \<notin> set x \<and> g x \<noteq> x
            \<and> prefix (''URI='' @ dquote # x @ [dquote])
                (drop k ((''URI='' @ dquote # w @ [dquote]) @ r))"
  then obtain x where x: "dquote \<notin> set x" "g x \<noteq> x"
    and h: "prefix (''URI='' @ dquote # x @ [dquote]) (drop k (''URI='' @ dquote # w @ dquote # r))"
    by auto
  show False
  proof (cases "k = 0")
    case True
    with h have "prefix (''URI='' @ dquote # x @ [dquote]) (''URI='' @ dquote # w @ dquote # r)"
      by simp
    then have "x = w"
      using x(1) assms(1) by (rule same_value)
    with x(2) assms(2) show False by simp
  next
    case False
    with k assms(3) have "\<not> prefix (''URI='' @ [dquote]) (drop k (''URI='' @ dquote # w @ dquote # r))"
      by simp
    with attribute_open [OF h] show False by simp
  qed
qed

lemma uriLoop_walk:
  assumes p: "dquote \<notin> set p" "\<not> replacementPattern p"
  shows "\<forall>v \<in> set (uriMatches r). \<not> endsWith v ''URI='' \<Longrightarrow>
     \<forall>j < length d. \<not> (\<exists>x. x \<noteq> [] \<and> dquote \<notin> set x \<and> settled api b bp p x \<noteq> x
        \<and> prefix (''URI='' @ dquote # x @ [dquote]) (drop j (d @ r))) \<Longrightarrow>
     uriLoop api b bp p (uriMatches r) (d @ r) = d @ mapAttributes (settled api b bp p) r"
proof (induction r arbitrary: d rule: uriMatches.induct)
  case 1
  then show ?case by simp
next
  case (2 c cs)
  let ?g = "settled api b bp p"
  let ?Q = "\<lambda>t. \<exists>x. x \<noteq> [] \<and> dquote \<notin> set x \<and> ?g x \<noteq> x
      \<and> prefix (''URI='' @ dquote # x @ [dquote]) t"
  show ?case
  proof (cases "uriMatchHere (c # cs)")
    case None
    have A: "\<forall>v \<in> set (uriMatches cs). \<not> endsWith v ''URI=''"
      using "2.prems"(1) None by simp
    have "\<not> ?Q (c # cs)"
    proof
      assume "?Q (c # cs)"
      then obtain x z where "x \<noteq> []" "dquote \<notin> set x"
        and "c # cs = ''URI='' @ dquote # x @ dquote # z"
        by (auto simp: prefix_def)
      with uriMatchHere_attribute [of x z] None show False
        by simp
    qed
    then have k: "\<forall>k < length [c]. \<not> ?Q (drop k ([c] @ cs))"
      by simp
    have "\<forall>j < length d. \<not> ?Q (drop j (d @ [c] @ cs))"
      using "2.prems"(2) by simp
    from this k have "\<forall>j < length (d @ [c]). \<not> ?Q (drop j ((d @ [c]) @ cs))"
      by (rule behind_extend [where Q = ?Q])
    from "2.IH"(1) [OF None A this]
    have "uriLoop api b bp p (uriMatches cs) ((d @ [c]) @ cs) = (d @ [c]) @ mapAttributes ?g cs" .
    with None show ?thesis
      by simp
  next
    case (Some m)
    obtain v r where m: "m = (v, r)" by (cases m)
    note H = Some [unfolded m]
    note M = uriMatchHere_Some [OF H]
    have ms: "uriMatches (c # cs) = v # uriMatches r"
      using H by simp
    have A: "\<forall>v \<in> set (uriMatches r). \<not> endsWith v ''URI=''"
      and V: "\<not> suffix ''URI='' v"
      using "2.prems"(1) unfolding ms by (simp_all add: endsWith_def)
    let ?a = "\<lambda>w. ''URI='' @ dquote # w @ [dquote]"
    have s: "c # cs = ?a v @ r"
      using M(1) by simp
    have old: "\<forall>j < length d. \<not> ?Q (drop j (d @ ?a v @ r))"
      using "2.prems"(2) unfolding s .
    have region: "\<forall>k. 0 < k \<and> k < length v + 6 \<longrightarrow>
           \<not> prefix (''URI='' @ [dquote]) (drop k (''URI='' @ dquote # v @ dquote # r))"
      using attribute_plain [of v _ r] M(3) V by simp
    have ma: "mapAttributes ?g (c # cs) = ''URI='' @ dquote # ?g v @ dquote # mapAttributes ?g r"
      using H by simp
    show ?thesis
    proof (cases rule: settled_cases [of v p api b bp])
      case kept
      have "\<forall>k < length (?a v). \<not> ?Q (drop k (?a v @ r))"
        using M(3) kept(2) region by (rule attribute_clear)
      with old have "\<forall>j < length (d @ ?a v). \<not> ?Q (drop j ((d @ ?a v) @ r))"
        by (rule behind_extend [where Q = ?Q])
      from "2.IH"(2) [OF Some m [symmetric] A this]
      have ih: "uriLoop api b bp p (uriMatches r) ((d @ ?a v) @ r) = (d @ ?a v) @ mapAttributes ?g r" .
      have "uriLoop api b bp p (uriMatches (c # cs)) (d @ c # cs)
          = uriLoop api b bp p (v # uriMatches r) (d @ c # cs)"
        by (simp only: ms)
      also have "\<dots> = uriLoop api b bp p (uriMatches r) (d @ c # cs)"
        using kept(1) by (rule uriLoop_skip)
      also have "\<dots> = uriLoop api b bp p (uriMatches r) ((d @ ?a v) @ r)"
        by (simp only: s append_assoc)
      also have "\<dots> = (d @ ?a v) @ mapAttributes ?g r"
        by (rule ih)
      also have "\<dots> = d @ mapAttributes ?g (c # cs)"
        by (simp only: ma kept(2) append_assoc append_Cons append_Nil)
      finally show ?thesis .
    next
      case (proxied P)
      note S = proxied_shape [OF proxied(2)]
      have "\<forall>j < length d. \<not> prefix (?a v) (drop j (d @ ?a v @ r))"
        using old M(2,3) proxied(3,4) by auto
      moreover have "prefix (?a v) (?a v @ r)"
        by simp
      ultimately have "firstOccurrence (d @ ?a v @ r) (?a v) = Some (d, drop (length (?a v)) (?a v @ r))"
        by (intro firstOccurrence_behind) simp_all
      then have fo: "firstOccurrence (d @ ?a v @ r) (?a v) = Some (d, r)"
        by simp
      have "replaceFirst (d @ ?a v @ r) (?a v) (?a P) = d @ ?a P @ r"
        using fo S(7) [OF p(2)] by (rule replaceFirst_found)
      then have "uriLoop api b bp p (v # uriMatches r) (d @ ?a v @ r)
          = uriLoop api b bp p (uriMatches r) ((d @ ?a P) @ r)"
        using proxied(1,2) by simp
      then have step: "uriLoop api b bp p (v # uriMatches r) (d @ c # cs)
          = uriLoop api b bp p (uriMatches r) ((d @ ?a P) @ r)"
        by (simp only: s)
      have "\<forall>j < length d. \<not> ?Q (drop j (d @ ?a P @ r))"
      proof (intro allI impI notI)
        fix j assume j: "j < length d" and "?Q (drop j (d @ ?a P @ r))"
        then obtain x where x: "x \<noteq> []" "dquote \<notin> set x" "?g x \<noteq> x"
          and h: "prefix (?a x) (drop j d @ ''URI='' @ dquote # P @ dquote # r)"
          by auto
        from j have "drop j d \<noteq> []"
          by simp
        with x(2) h have "prefix (?a x) (drop j d @ ''URI='' @ [dquote])"
          by (intro pattern_inside [of x "drop j d" "P @ dquote # r"]) simp_all
        then have "prefix (?a x) ((drop j d @ ''URI='' @ [dquote]) @ v @ dquote # r)"
          by (rule prefix_prefix)
        then have "?Q (drop j (d @ ?a v @ r))"
          using x j by auto
        with old j show False
          by blast
      qed
      moreover have "\<forall>k < length (?a P). \<not> ?Q (drop k (?a P @ r))"
      proof (rule attribute_clear)
        show "dquote \<notin> set P"
          using S(5) p(1) by simp
        show "?g P = P"
          using S(2) by (rule settled_fixed)
        show "\<forall>k. 0 < k \<and> k < length P + 6 \<longrightarrow>
           \<not> prefix (''URI='' @ [dquote]) (drop k (''URI='' @ dquote # P @ dquote # r))"
          using attribute_plain [of P _ r] S(5) [OF p(1)] S(6) by simp
      qed
      ultimately have "\<forall>j < length (d @ ?a P). \<not> ?Q (drop j ((d @ ?a P) @ r))"
        by (rule behind_extend [where Q = ?Q])
      from "2.IH"(2) [OF Some m [symmetric] A this]
      have ih: "uriLoop api b bp p (uriMatches r) ((d @ ?a P) @ r) = (d @ ?a P) @ mapAttributes ?g r" .
      have "uriLoop api b bp p (uriMatches (c # cs)) (d @ c # cs)
          = uriLoop api b bp p (v # uriMatches r) (d @ c # cs)"
        by (simp only: ms)
      also have "\<dots> = uriLoop api b bp p (uriMatches r) ((d @ ?a P) @ r)"
        by (rule step)
      also have "\<dots> = (d @ ?a P) @ mapAttributes ?g r"
        by (rule ih)
      also have "\<dots> = d @ mapAttributes ?g (c # cs)"
        by (simp only: ma proxied(3) append_assoc append_Cons append_Nil)
      finally show ?thesis .
    qed
  qed
qed

text \<open>The line with its attributes settled: its matches, its first characters, its kind.\<close>

lemma prefix_take: "prefix u x \<longleftrightarrow> take (length u) x = u"
proof
  assume "prefix u x"
  then show "take (length u) x = u"
    by (auto simp: prefix_def)
next
  assume "take (length u) x = u"
  then show "prefix u x"
    using take_is_prefix [of "length u" x] by simp
qed

lemma mapAttributes_take: "n \<le> 5 \<Longrightarrow> take n (mapAttributes g s) = take n s"
proof (induction g s arbitrary: n rule: mapAttributes.induct)
  case (1 g)
  then show ?case by simp
next
  case (2 g c cs)
  show ?case
  proof (cases "uriMatchHere (c # cs)")
    case None
    show ?thesis
    proof (cases n)
      case 0
      then show ?thesis by simp
    next
      case (Suc k)
      with "2.prems" "2.IH"(1) [OF None, of k] None show ?thesis
        by simp
    qed
  next
    case (Some m)
    obtain v r where m: "m = (v, r)" by (cases m)
    note M = uriMatchHere_Some [OF Some [unfolded m]]
    define u where "u = ''URI='' @ [dquote]"
    then have l: "length u = 5"
      by simp
    have t: "take n (u @ y) = take n u" for y
      using l "2.prems" by simp
    have e1: "mapAttributes g (c # cs) = u @ g v @ dquote # mapAttributes g r"
      using Some m by (simp add: u_def)
    have e2: "u @ v @ dquote # r = c # cs"
      using M(1) by (simp add: u_def)
    have "take n (mapAttributes g (c # cs)) = take n (u @ g v @ dquote # mapAttributes g r)"
      by (simp only: e1)
    also have "\<dots> = take n (u @ v @ dquote # r)"
      by (simp only: t)
    also have "\<dots> = take n (c # cs)"
      by (simp only: e2)
    finally show ?thesis .
  qed
qed

lemma mapAttributes_open:
  "prefix (''URI='' @ [dquote]) (mapAttributes g s) \<longleftrightarrow> prefix (''URI='' @ [dquote]) s"
proof -
  have l: "length (''URI='' @ [dquote]) = 5"
    by simp
  have "take 5 (mapAttributes g s) = take 5 s"
    by (rule mapAttributes_take) simp
  then show ?thesis
    unfolding prefix_take l by (rule arg_cong)
qed

lemma includes_open:
  "includesStr s (''URI='' @ [dquote]) \<Longrightarrow> dquote \<in> set (drop 4 s)"
proof (induction s)
  case Nil
  then show ?case by simp
next
  case (Cons c s)
  show ?case
  proof (cases "prefix (''URI='' @ [dquote]) (c # s)")
    case True
    then obtain z where "c # s = (''URI='' @ [dquote]) @ z"
      by (auto simp: prefix_def)
    then have "drop 4 (c # s) = dquote # z"
      by simp
    then show ?thesis
      by simp
  next
    case False
    with Cons.prems have "includesStr s (''URI='' @ [dquote])"
      by auto
    then have "dquote \<in> set (drop 4 s)"
      by (rule Cons.IH)
    moreover have "set (drop 4 s) \<subseteq> set (drop 3 s)"
      by (rule set_drop_subset_set_drop) simp
    ultimately show ?thesis
      by (auto simp: drop_Cons')
  qed
qed

lemma mapAttributes_plain:
  "\<not> includesStr s (''URI='' @ [dquote]) \<Longrightarrow> mapAttributes g s = s"
proof (induction s)
  case Nil
  then show ?case by simp
next
  case (Cons c s)
  then have "uriMatchHere (c # s) = None"
    by (intro uriMatchHere_None) simp
  with Cons show ?case
    by simp
qed

lemma mapAttributes_no_match:
  assumes "uriMatchHere (c # cs) = None"
  shows "uriMatchHere (c # mapAttributes g cs) = None"
proof (cases "prefix (''URI='' @ [dquote]) (c # cs)")
  case False
  have "mapAttributes g (c # cs) = c # mapAttributes g cs"
    using assms by simp
  with False mapAttributes_open [of g "c # cs"]
  have "\<not> prefix (''URI='' @ [dquote]) (c # mapAttributes g cs)"
    by simp
  then show ?thesis
    by (rule uriMatchHere_None)
next
  case True
  then obtain t where s: "c # cs = (''URI='' @ [dquote]) @ t"
    by (auto simp: prefix_def)
  then have c: "c = CHR ''U''" and cs: "cs = ''RI='' @ dquote # t"
    by simp_all
  from assms have "takeWhile (\<lambda>c. c \<noteq> dquote) t = [] \<or> dropWhile (\<lambda>c. c \<noteq> dquote) t = []"
    unfolding s by (auto simp: uriMatchHere_def Let_def split: if_splits)
  then consider "t = []" | t' where "t = dquote # t'" | "dquote \<notin> set t"
    by (cases t) (auto simp: takeWhile_eq_Nil_iff dropWhile_eq_Nil_conv split: if_splits)
  then show ?thesis
  proof cases
    case 1
    then have "mapAttributes g cs = cs"
      unfolding cs by (simp add: uriMatchHere_def dquote_def)
    with assms show ?thesis
      by simp
  next
    case 2
    then have "mapAttributes g cs = ''RI='' @ dquote # dquote # mapAttributes g t'"
      unfolding cs by (simp add: uriMatchHere_def dquote_def)
    then show ?thesis
      unfolding c by (simp add: uriMatchHere_def)
  next
    case 3
    have "\<not> includesStr cs (''URI='' @ [dquote])"
    proof
      assume "includesStr cs (''URI='' @ [dquote])"
      then have "dquote \<in> set (drop 4 cs)"
        by (rule includes_open)
      with 3 show False
        unfolding cs by simp
    qed
    then have "mapAttributes g cs = cs"
      by (rule mapAttributes_plain)
    with assms show ?thesis
      by simp
  qed
qed

lemma mapAttributes_matches:
  assumes g: "\<forall>v. v \<noteq> [] \<and> dquote \<notin> set v \<longrightarrow> g v \<noteq> [] \<and> dquote \<notin> set (g v)"
  shows "uriMatches (mapAttributes g s) = map g (uriMatches s)"
proof (induction s rule: uriMatches.induct)
  case 1
  then show ?case by simp
next
  case (2 c cs)
  show ?case
  proof (cases "uriMatchHere (c # cs)")
    case None
    have e: "mapAttributes g (c # cs) = c # mapAttributes g cs"
      using None by simp
    have "uriMatchHere (c # mapAttributes g cs) = None"
      using None by (rule mapAttributes_no_match)
    then have "uriMatches (c # mapAttributes g cs) = uriMatches (mapAttributes g cs)"
      by simp
    with "2.IH"(1) [OF None] None e show ?thesis
      by simp
  next
    case (Some m)
    obtain v r where m: "m = (v, r)" by (cases m)
    note H = Some [unfolded m]
    note M = uriMatchHere_Some [OF H]
    from g M(2,3) have "g v \<noteq> []" and "dquote \<notin> set (g v)"
      by simp_all
    then have "uriMatchHere (''URI='' @ dquote # g v @ dquote # mapAttributes g r)
        = Some (g v, mapAttributes g r)"
      by (rule uriMatchHere_attribute)
    then have "uriMatches (''URI='' @ dquote # g v @ dquote # mapAttributes g r)
        = g v # uriMatches (mapAttributes g r)"
      by simp
    with "2.IH"(2) [OF Some m [symmetric]] H show ?thesis
      by simp
  qed
qed

lemma mapAttributes_first:
  "mapAttributes g s = s
    \<or> (\<exists>f y y'. s = f @ CHR ''U'' # y \<and> mapAttributes g s = f @ CHR ''U'' # y')"
proof (induction g s rule: mapAttributes.induct)
  case (1 g)
  then show ?case by simp
next
  case (2 g c cs)
  show ?case
  proof (cases "uriMatchHere (c # cs)")
    case None
    from "2.IH"(1) [OF None] show ?thesis
    proof
      assume "mapAttributes g cs = cs"
      with None show ?thesis by simp
    next
      assume "\<exists>f y y'. cs = f @ CHR ''U'' # y \<and> mapAttributes g cs = f @ CHR ''U'' # y'"
      then obtain f y y' where "cs = f @ CHR ''U'' # y" "mapAttributes g cs = f @ CHR ''U'' # y'"
        by blast
      with None have "c # cs = (c # f) @ CHR ''U'' # y
          \<and> mapAttributes g (c # cs) = (c # f) @ CHR ''U'' # y'"
        by simp
      then show ?thesis by blast
    qed
  next
    case (Some m)
    obtain v r where m: "m = (v, r)" by (cases m)
    note M = uriMatchHere_Some [OF Some [unfolded m]]
    have "c # cs = [] @ CHR ''U'' # (''RI='' @ dquote # v @ dquote # r)"
      using M(1) by simp
    moreover have "mapAttributes g (c # cs)
        = [] @ CHR ''U'' # (''RI='' @ dquote # g v @ dquote # mapAttributes g r)"
      using Some m by simp
    ultimately show ?thesis by blast
  qed
qed

text \<open>Each line is stable after one pass, and so is the document.\<close>

lemma directive_settled:
  assumes p: "dquote \<notin> set p" "\<not> replacementPattern p"
    and d: "startsWith (trim l) ''#''"
    and w: "\<forall>v \<in> set (uriMatches l). \<not> endsWith v ''URI=''"
  shows "processLine api b bp p (processLine api b bp p l) = processLine api b bp p l"
proof (cases "includesStr l (''URI='' @ [dquote])")
  case False
  with d have "processLine api b bp p l = l"
    by (simp add: processLine_def)
  then show ?thesis by simp
next
  case True
  let ?g = "settled api b bp p"
  let ?o = "mapAttributes ?g l"
  have "uriLoop api b bp p (uriMatches l) ([] @ l) = [] @ ?o"
    using p w by (intro uriLoop_walk) simp_all
  with d True have o: "processLine api b bp p l = ?o"
    by (simp add: processLine_def)
  have dir: "startsWith (trim ?o) ''#''"
    using mapAttributes_first [of ?g l]
  proof
    assume "?o = l"
    with d show ?thesis by simp
  next
    assume "\<exists>f y y'. l = f @ CHR ''U'' # y \<and> ?o = f @ CHR ''U'' # y'"
    then obtain f y y' where l: "l = f @ CHR ''U'' # y" and e: "?o = f @ CHR ''U'' # y'"
      by blast
    from d have "startsWith (trim (f @ CHR ''U'' # y)) ''#''"
      unfolding l .
    then have "startsWith (trim (f @ CHR ''U'' # y')) ''#''"
      by (rule directive_before_U)
    then show ?thesis
      unfolding e .
  qed
  have "\<forall>v. v \<noteq> [] \<and> dquote \<notin> set v \<longrightarrow> ?g v \<noteq> [] \<and> dquote \<notin> set (?g v)"
    using settled_value [OF p(1)] by blast
  then have m: "uriMatches ?o = map ?g (uriMatches l)"
    by (rule mapAttributes_matches)
  have "\<forall>x \<in> set (uriMatches ?o). startsWith x p \<or> proxiedOf api b bp p x = None"
  proof
    fix x assume "x \<in> set (uriMatches ?o)"
    then obtain v where "x = ?g v"
      unfolding m by auto
    then show "startsWith x p \<or> proxiedOf api b bp p x = None"
      using settled_settled [of api b bp p v] by simp
  qed
  with dir have "processLine api b bp p ?o = ?o"
    by (rule processLine_directive_kept)
  then show ?thesis
    unfolding o .
qed

lemma processLine_keeps:
  assumes "\<not> replacementPattern p"
  shows "\<not> endsWith l [CHR 0x0D] \<Longrightarrow> \<not> endsWith (processLine api b bp p l) [CHR 0x0D]"
    and "CHR 0x0A \<notin> set p \<Longrightarrow> CHR 0x0A \<notin> set l \<Longrightarrow> CHR 0x0A \<notin> set (processLine api b bp p l)"
proof -
  have "(\<not> endsWith l [CHR 0x0D] \<longrightarrow> \<not> endsWith (processLine api b bp p l) [CHR 0x0D])
    \<and> (CHR 0x0A \<notin> set p \<and> CHR 0x0A \<notin> set l \<longrightarrow> CHR 0x0A \<notin> set (processLine api b bp p l))"
  proof (cases "startsWith (trim l) ''#''")
    case True
    then have "processLine api b bp p l = l
        \<or> processLine api b bp p l = uriLoop api b bp p (uriMatches l) l"
      by (simp add: processLine_def)
    then show ?thesis
    proof
      assume "processLine api b bp p l = l"
      then show ?thesis by simp
    next
      assume e: "processLine api b bp p l = uriLoop api b bp p (uriMatches l) l"
      from uriLoop_keeps [OF assms, of api b bp "uriMatches l" l "CHR 0x0D"] show ?thesis
        unfolding e by blast
    qed
  next
    case False
    from processLine_uri_cases [OF False, of api b bp p] show ?thesis
    proof
      assume "processLine api b bp p l = l"
      then show ?thesis by simp
    next
      assume "\<exists>P. proxiedOf api b bp p (trim l) = Some P \<and> processLine api b bp p l = P"
      then obtain P where P: "proxiedOf api b bp p (trim l) = Some P"
        and o: "processLine api b bp p l = P"
        by blast
      from proxied_no_return [OF P] proxied_shape(4) [OF P] show ?thesis
        unfolding o by simp
    qed
  qed
  then show "\<not> endsWith l [CHR 0x0D] \<Longrightarrow> \<not> endsWith (processLine api b bp p l) [CHR 0x0D]"
    and "CHR 0x0A \<notin> set p \<Longrightarrow> CHR 0x0A \<notin> set l \<Longrightarrow> CHR 0x0A \<notin> set (processLine api b bp p l)"
    by simp_all
qed

lemma processLine_twice:
  assumes p: "trimStart p = p" "dquote \<notin> set p" "\<not> replacementPattern p"
    and d: "startsWith (trim l) ''#'' \<longrightarrow>
        (\<forall>v \<in> set (uriMatches l). \<not> endsWith v ''URI='')
        \<or> (\<forall>v \<in> set (uriMatches l). startsWith v p)"
  shows "processLine api b bp p (processLine api b bp p l) = processLine api b bp p l"
proof (cases "startsWith (trim l) ''#''")
  case True
  with d consider "\<forall>v \<in> set (uriMatches l). \<not> endsWith v ''URI=''"
    | "\<forall>v \<in> set (uriMatches l). startsWith v p"
    by blast
  then show ?thesis
  proof cases
    case 1
    with p True show ?thesis
      by (intro directive_settled) auto
  next
    case 2
    with True have "processLine api b bp p l = l"
      by (intro processLine_directive_kept) auto
    then show ?thesis by simp
  qed
next
  case False
  from processLine_uri_cases [OF False, of api b bp p] show ?thesis
  proof
    assume "processLine api b bp p l = l"
    then show ?thesis by simp
  next
    assume "\<exists>P. proxiedOf api b bp p (trim l) = Some P \<and> processLine api b bp p l = P"
    then obtain P where P: "proxiedOf api b bp p (trim l) = Some P"
      and o: "processLine api b bp p l = P"
      by blast
    from proxied_stable [OF P p(1,2)] show ?thesis
      unfolding o .
  qed
qed

lemma processM3u8_second_pass:
  assumes p: "trimStart p = p" "dquote \<notin> set p" "\<not> replacementPattern p" "CHR 0x0A \<notin> set p"
    and cr: "\<forall>b. newUrl api u = Some b \<longrightarrow>
        (\<forall>l \<in> set (butlast (splitLines t)).
           \<not> endsWith (processLine api b (basePathOf u) p l) [CHR 0x0D])"
    and d: "\<forall>l \<in> set (splitLines t). startsWith (trim l) ''#'' \<longrightarrow>
        (\<forall>v \<in> set (uriMatches l). \<not> endsWith v ''URI='')
        \<or> (\<forall>v \<in> set (uriMatches l). startsWith v p)"
  shows "processM3u8 api (processM3u8 api t u p) u p = processM3u8 api t u p"
proof (cases "newUrl api u")
  case None
  then show ?thesis
    by (simp add: processM3u8_def)
next
  case (Some b)
  let ?f = "processLine api b (basePathOf u) p"
  let ?out = "map ?f (splitLines t)"
  have L: "?f (?f l) = ?f l" if "l \<in> set (splitLines t)" for l
    using that p(1,2,3) d by (intro processLine_twice) auto
  have N: "CHR 0x0A \<notin> set (?f l)" if "l \<in> set (splitLines t)" for l
    using that p(3,4) splitLines_no_linefeed [of l t] by (intro processLine_keeps(2)) auto
  have R: "\<forall>x \<in> set (butlast ?out). \<not> endsWith x [CHR 0x0D]"
    using cr Some by (simp add: map_butlast [symmetric])
  have one: "processM3u8 api t u p = joinLines ?out"
    using Some by (rule processM3u8_lines)
  have sp: "splitLines (joinLines ?out) = ?out"
    using N R splitLines_not_empty [of t] by (intro splitLines_joinLines) auto
  have "map ?f ?out = ?out"
    using L by (intro map_idI) auto
  then have "joinLines (map ?f (splitLines (joinLines ?out))) = joinLines ?out"
    unfolding sp by (rule arg_cong)
  then have "processM3u8 api (joinLines ?out) u p = joinLines ?out"
    using Some by (simp only: processM3u8_def option.case)
  then show ?thesis
    by (simp add: one)
qed

text \<open>
  Claim C7, as the code has it.  Let the proxy base path \<open>p\<close> begin with no white space and
  hold no line feed, no double quote and none of the replacement patterns \<open>$$\<close>, \<open>$&\<close>,
  \<open>$`\<close> and \<open>$'\<close>.  Let \<open>t\<close> be a playlist text of which the first pass emits no line that
  ends in a carriage return, the last line apart, and in which every directive line either
  has no URI attribute value that ends in \<open>URI=\<close> or has only URI attribute values that begin
  with \<open>p\<close>.  Then a second pass changes nothing, for every source URL and whatever the
  platform answers.  A line that does not end in a carriage return is emitted as one that
  does not, so the condition on the emitted lines holds when no line of \<open>t\<close> but the last ends
  in a carriage return.  And in every text a URI line whose trimmed text begins with \<open>p\<close> is
  emitted as it stands, and a URI attribute value that begins with \<open>p\<close> is skipped.
\<close>

theorem processM3u8_idempotent:
  "(trimStart p = p \<and> dquote \<notin> set p \<and> CHR 0x0A \<notin> set p \<and> \<not> replacementPattern p
      \<and> (\<forall>base. newUrl api u = Some base \<longrightarrow>
            (\<forall>l \<in> set (butlast (splitLines t)).
               \<not> endsWith (processLine api base (basePathOf u) p l) [CHR 0x0D]))
      \<and> (\<forall>l \<in> set (splitLines t). startsWith (trim l) ''#'' \<longrightarrow>
            (\<forall>v \<in> set (uriMatches l). \<not> endsWith v ''URI='')
            \<or> (\<forall>v \<in> set (uriMatches l). startsWith v p)) \<longrightarrow>
        processM3u8 api (processM3u8 api t u p) u p = processM3u8 api t u p)
   \<and> (\<not> replacementPattern p \<and> \<not> endsWith l [CHR 0x0D] \<longrightarrow>
        \<not> endsWith (processLine api b bp p l) [CHR 0x0D])
   \<and> (trim l \<noteq> [] \<and> \<not> startsWith (trim l) ''#'' \<and> startsWith (trim l) p \<longrightarrow>
        processLine api b bp p l = l)
   \<and> (startsWith v p \<longrightarrow> uriLoop api b bp p (v # rest) pl = uriLoop api b bp p rest pl)"
proof -
  have "trim l \<noteq> [] \<and> \<not> startsWith (trim l) ''#'' \<and> startsWith (trim l) p \<longrightarrow>
        processLine api b bp p l = l"
    using processLine_uri_kept [of l p api b bp] by auto
  moreover have "startsWith v p \<longrightarrow>
      uriLoop api b bp p (v # rest) pl = uriLoop api b bp p rest pl"
    by simp
  moreover have "\<not> replacementPattern p \<and> \<not> endsWith l [CHR 0x0D] \<longrightarrow>
        \<not> endsWith (processLine api b bp p l) [CHR 0x0D]"
    using processLine_keeps(1) [of p l api b bp] by blast
  ultimately show ?thesis
    using processM3u8_second_pass [of p api u t] by blast
qed

theorem processM3u8_idempotent_witness:
  "processM3u8 scenarioApi
       (processM3u8 scenarioApi partPlaylist sourceUrl ''http://localhost:3000/proxy'')
       sourceUrl ''http://localhost:3000/proxy''
     = processM3u8 scenarioApi partPlaylist sourceUrl ''http://localhost:3000/proxy''
   \<and> processM3u8 scenarioApi partPlaylist sourceUrl ''http://localhost:3000/proxy''
     = ''#EXTM3U'' @ [CHR 0x0A]
         @ ''#EXT-X-KEY:METHOD=AES-128,URI='' @ [dquote]
         @ ''http://localhost:3000/proxy?url=https%3A%2F%2Fcdn.example.com%2Fvideos%2Fshow%2Fkey.bin''
         @ [dquote] @ [CHR 0x0A]
         @ ''#EXT-X-PART:URI='' @ [dquote]
         @ ''http://localhost:3000/proxy?url=https%3A%2F%2Fcdn.example.com%2Fvideos%2Fshow%2Fsegment001.ts''
         @ [dquote] @ '',URI='' @ [dquote]
         @ ''http://localhost:3000/proxy?url=https%3A%2F%2Fcdn.example.com%2Fvideos%2Fshow%2Fkey.bin''
         @ [dquote] @ [CHR 0x0A]
         @ ''http://localhost:3000/proxy?url=https%3A%2F%2Fcdn.example.com%2Fvideos%2Fshow%2Fsegment001.ts''
         @ [CHR 0x0A]"
proof -
  let ?p = "''http://localhost:3000/proxy''"
  let ?part = "''#EXT-X-PART:URI='' @ [dquote] @ ''segment001.ts'' @ [dquote]
       @ '',URI='' @ [dquote] @ ''key.bin'' @ [dquote]"
  have sl: "splitLines partPlaylist = [''#EXTM3U'', keyLine, ?part, ''segment001.ts'', []]"
    by (simp add: partPlaylist_def keyLine_def dquote_def)
  have p: "trimStart ?p = ?p \<and> dquote \<notin> set ?p \<and> CHR 0x0A \<notin> set ?p \<and> \<not> replacementPattern ?p"
    by (simp add: replacementPattern_def str_eval)
  have e: "\<not> endsWith ''#EXTM3U'' [CHR 0x0D]" "\<not> endsWith keyLine [CHR 0x0D]"
    "\<not> endsWith ?part [CHR 0x0D]" "\<not> endsWith ''segment001.ts'' [CHR 0x0D]"
    by (simp_all add: endsWith_def suffix_to_prefix keyLine_def dquote_def)
  have cr: "\<forall>base. newUrl scenarioApi sourceUrl = Some base \<longrightarrow>
      (\<forall>l \<in> set (butlast (splitLines partPlaylist)).
         \<not> endsWith (processLine scenarioApi base (basePathOf sourceUrl) ?p l) [CHR 0x0D])"
  proof (intro allI impI ballI)
    fix base l assume "l \<in> set (butlast (splitLines partPlaylist))"
    then have "\<not> endsWith l [CHR 0x0D]"
      unfolding sl using e by auto
    with p processM3u8_idempotent [of ?p scenarioApi sourceUrl partPlaylist l base
        "basePathOf sourceUrl"]
    show "\<not> endsWith (processLine scenarioApi base (basePathOf sourceUrl) ?p l) [CHR 0x0D]"
      by blast
  qed
  have "uriMatches ''#EXTM3U'' = []" "uriMatches keyLine = [''key.bin'']"
    "uriMatches ?part = [''segment001.ts'', ''key.bin'']"
    by (simp_all add: keyLine_def str_eval)
  moreover have "\<not> startsWith (trim ''segment001.ts'') ''#''" "\<not> startsWith (trim []) ''#''"
    by (simp_all add: str_eval)
  ultimately have d: "\<forall>l \<in> set (splitLines partPlaylist). startsWith (trim l) ''#'' \<longrightarrow>
            (\<forall>v \<in> set (uriMatches l). \<not> endsWith v ''URI='')
            \<or> (\<forall>v \<in> set (uriMatches l). startsWith v ?p)"
    unfolding sl by (simp add: endsWith_def suffix_to_prefix)
  from processM3u8_idempotent [of ?p scenarioApi sourceUrl partPlaylist] p cr d
  have "processM3u8 scenarioApi (processM3u8 scenarioApi partPlaylist sourceUrl ?p) sourceUrl ?p
     = processM3u8 scenarioApi partPlaylist sourceUrl ?p"
    by blast
  moreover have "processM3u8 scenarioApi partPlaylist sourceUrl ?p
     = ''#EXTM3U'' @ [CHR 0x0A]
         @ ''#EXT-X-KEY:METHOD=AES-128,URI='' @ [dquote]
         @ ''http://localhost:3000/proxy?url=https%3A%2F%2Fcdn.example.com%2Fvideos%2Fshow%2Fkey.bin''
         @ [dquote] @ [CHR 0x0A]
         @ ''#EXT-X-PART:URI='' @ [dquote]
         @ ''http://localhost:3000/proxy?url=https%3A%2F%2Fcdn.example.com%2Fvideos%2Fshow%2Fsegment001.ts''
         @ [dquote] @ '',URI='' @ [dquote]
         @ ''http://localhost:3000/proxy?url=https%3A%2F%2Fcdn.example.com%2Fvideos%2Fshow%2Fkey.bin''
         @ [dquote] @ [CHR 0x0A]
         @ ''http://localhost:3000/proxy?url=https%3A%2F%2Fcdn.example.com%2Fvideos%2Fshow%2Fsegment001.ts''
         @ [CHR 0x0A]"
    by (simp add: processM3u8_def sl scenarioApi_def basePathOf_sourceUrl processLine_def
        proxiedOf_def absoluteOf_def keyLine_def str_eval)
  ultimately show ?thesis
    by simp
qed

text \<open>
  C7 fails outside these conditions.  (1) On a playlist whose first line ends in two carriage
  returns and a line feed, the first pass keeps one carriage return at the end of the line
  and joins with a line feed, and the second pass takes that carriage return and the line
  feed for one line break.  (2) Under a proxy base path that begins with a blank, the
  proxied URL loses the blank when the second pass trims it, no longer begins with the
  proxy base path, and is proxied again.  (3) Under a proxy base path that holds a line
  feed, the second pass splits the proxied URL into two lines and proxies both.  (4) Under a
  proxy base path that holds a double quote, the value of the rewritten attribute ends at
  that quote for the second pass, and is proxied again.  (5) Under a proxy base path that
  holds \<open>$&\<close>, the replacement puts the replaced attribute into the proxied URL, and the
  second pass finds an attribute there.  (6) On a line whose first attribute value ends in
  \<open>URI=\<close>, the first pass rewrites the text \<open>URI="http://a/k"\<close> where it stands first, at the
  end of the first value, and the second pass rewrites it at the second attribute.  In all
  six the references are absolute URLs, taken as they are, and the platform is asked only
  to parse the source URL.
\<close>

theorem processM3u8_twice_counterexample:
  "processM3u8 scenarioApi crText sourceUrl ''/proxy'' = ''#EXTM3U'' @ [CHR 0x0D, CHR 0x0A]
   \<and> processM3u8 scenarioApi (processM3u8 scenarioApi crText sourceUrl ''/proxy'')
        sourceUrl ''/proxy'' = ''#EXTM3U'' @ [CHR 0x0A]
   \<and> processM3u8 scenarioApi (processM3u8 scenarioApi crText sourceUrl ''/proxy'')
        sourceUrl ''/proxy'' \<noteq> processM3u8 scenarioApi crText sourceUrl ''/proxy''
   \<and> processM3u8 scenarioApi ''http://a/b'' sourceUrl '' http://h/p''
        = '' http://h/p?url=http%3A%2F%2Fa%2Fb''
   \<and> processM3u8 scenarioApi (processM3u8 scenarioApi ''http://a/b'' sourceUrl '' http://h/p'')
        sourceUrl '' http://h/p''
        = '' http://h/p?url=http%3A%2F%2Fh%2Fp%3Furl%3Dhttp%253A%252F%252Fa%252Fb''
   \<and> processM3u8 scenarioApi (processM3u8 scenarioApi ''http://a/b'' sourceUrl '' http://h/p'')
        sourceUrl '' http://h/p''
        \<noteq> processM3u8 scenarioApi ''http://a/b'' sourceUrl '' http://h/p''
   \<and> processM3u8 scenarioApi ''http://a/b'' sourceUrl (''http://h/p'' @ [CHR 0x0A] @ ''http://h/q'')
        = ''http://h/p'' @ [CHR 0x0A] @ ''http://h/q?url=http%3A%2F%2Fa%2Fb''
   \<and> processM3u8 scenarioApi
        (processM3u8 scenarioApi ''http://a/b'' sourceUrl
           (''http://h/p'' @ [CHR 0x0A] @ ''http://h/q''))
        sourceUrl (''http://h/p'' @ [CHR 0x0A] @ ''http://h/q'')
        = ''http://h/p'' @ [CHR 0x0A] @ ''http://h/q?url=http%3A%2F%2Fh%2Fp'' @ [CHR 0x0A]
            @ ''http://h/p'' @ [CHR 0x0A]
            @ ''http://h/q?url=http%3A%2F%2Fh%2Fq%3Furl%3Dhttp%253A%252F%252Fa%252Fb''
   \<and> processM3u8 scenarioApi
        (processM3u8 scenarioApi ''http://a/b'' sourceUrl
           (''http://h/p'' @ [CHR 0x0A] @ ''http://h/q''))
        sourceUrl (''http://h/p'' @ [CHR 0x0A] @ ''http://h/q'')
        \<noteq> processM3u8 scenarioApi ''http://a/b'' sourceUrl
            (''http://h/p'' @ [CHR 0x0A] @ ''http://h/q'')
   \<and> processM3u8 scenarioApi absoluteKeyLine sourceUrl (''http://h/'' @ [dquote])
        = ''#EXT-X-KEY:URI='' @ [dquote] @ ''http://h/'' @ [dquote]
            @ ''?url=http%3A%2F%2Fa%2Fk'' @ [dquote]
   \<and> processM3u8 scenarioApi
        (processM3u8 scenarioApi absoluteKeyLine sourceUrl (''http://h/'' @ [dquote]))
        sourceUrl (''http://h/'' @ [dquote])
        = ''#EXT-X-KEY:URI='' @ [dquote] @ ''http://h/'' @ [dquote]
            @ ''?url=http%3A%2F%2Fh%2F'' @ [dquote] @ ''?url=http%3A%2F%2Fa%2Fk'' @ [dquote]
   \<and> processM3u8 scenarioApi
        (processM3u8 scenarioApi absoluteKeyLine sourceUrl (''http://h/'' @ [dquote]))
        sourceUrl (''http://h/'' @ [dquote])
        \<noteq> processM3u8 scenarioApi absoluteKeyLine sourceUrl (''http://h/'' @ [dquote])
   \<and> processM3u8 scenarioApi absoluteKeyLine sourceUrl ''http://h/$&''
        = ''#EXT-X-KEY:URI='' @ [dquote] @ ''http://h/URI='' @ [dquote] @ ''http://a/k''
            @ [dquote] @ ''?url=http%3A%2F%2Fa%2Fk'' @ [dquote]
   \<and> processM3u8 scenarioApi (processM3u8 scenarioApi absoluteKeyLine sourceUrl ''http://h/$&'')
        sourceUrl ''http://h/$&''
        = ''#EXT-X-KEY:URI='' @ [dquote] @ ''http://h/URI='' @ [dquote] @ ''http://h/URI=''
            @ [dquote] @ ''?url=http%3A%2F%2Fh%2FURI%3D'' @ [dquote] @ ''http://a/k''
            @ [dquote] @ ''?url=http%3A%2F%2Fa%2Fk'' @ [dquote]
   \<and> processM3u8 scenarioApi (processM3u8 scenarioApi absoluteKeyLine sourceUrl ''http://h/$&'')
        sourceUrl ''http://h/$&''
        \<noteq> processM3u8 scenarioApi absoluteKeyLine sourceUrl ''http://h/$&''
   \<and> uriMatches straddleLine = [''/proxyURI='', ''http://a/k'']
   \<and> processM3u8 scenarioApi straddleLine sourceUrl ''/proxy''
        = ''#EXT-X-PART:URI='' @ [dquote] @ ''/proxyURI='' @ [dquote]
            @ ''/proxy?url=http%3A%2F%2Fa%2Fk'' @ [dquote]
            @ '',URI='' @ [dquote] @ ''http://a/k'' @ [dquote]
   \<and> processM3u8 scenarioApi (processM3u8 scenarioApi straddleLine sourceUrl ''/proxy'')
        sourceUrl ''/proxy''
        = ''#EXT-X-PART:URI='' @ [dquote] @ ''/proxyURI='' @ [dquote]
            @ ''/proxy?url=http%3A%2F%2Fa%2Fk'' @ [dquote]
            @ '',URI='' @ [dquote] @ ''/proxy?url=http%3A%2F%2Fa%2Fk'' @ [dquote]
   \<and> processM3u8 scenarioApi (processM3u8 scenarioApi straddleLine sourceUrl ''/proxy'')
        sourceUrl ''/proxy''
        \<noteq> processM3u8 scenarioApi straddleLine sourceUrl ''/proxy''"
proof -
  note ev = processM3u8_def scenarioApi_def basePathOf_sourceUrl processLine_def
    proxiedOf_def absoluteOf_def str_eval
  let ?lf = "''http://h/p'' @ [CHR 0x0A] @ ''http://h/q''"
  let ?q = "''http://h/'' @ [dquote]"
  have a1: "processM3u8 scenarioApi crText sourceUrl ''/proxy''
      = ''#EXTM3U'' @ [CHR 0x0D, CHR 0x0A]"
    by (simp add: ev crText_def)
  have a2: "processM3u8 scenarioApi (''#EXTM3U'' @ [CHR 0x0D, CHR 0x0A]) sourceUrl ''/proxy''
      = ''#EXTM3U'' @ [CHR 0x0A]"
    by (simp add: ev)
  have b1: "processM3u8 scenarioApi ''http://a/b'' sourceUrl '' http://h/p''
      = '' http://h/p?url=http%3A%2F%2Fa%2Fb''"
    by (simp add: ev)
  have b2: "processM3u8 scenarioApi '' http://h/p?url=http%3A%2F%2Fa%2Fb'' sourceUrl
        '' http://h/p''
      = '' http://h/p?url=http%3A%2F%2Fh%2Fp%3Furl%3Dhttp%253A%252F%252Fa%252Fb''"
    by (simp add: ev)
  have c1: "processM3u8 scenarioApi ''http://a/b'' sourceUrl ?lf
      = ''http://h/p'' @ [CHR 0x0A] @ ''http://h/q?url=http%3A%2F%2Fa%2Fb''"
    by (simp add: ev)
  have c2: "processM3u8 scenarioApi
        (''http://h/p'' @ [CHR 0x0A] @ ''http://h/q?url=http%3A%2F%2Fa%2Fb'') sourceUrl ?lf
      = ''http://h/p'' @ [CHR 0x0A] @ ''http://h/q?url=http%3A%2F%2Fh%2Fp'' @ [CHR 0x0A]
            @ ''http://h/p'' @ [CHR 0x0A]
            @ ''http://h/q?url=http%3A%2F%2Fh%2Fq%3Furl%3Dhttp%253A%252F%252Fa%252Fb''"
    by (simp add: ev)
  have d1: "processM3u8 scenarioApi absoluteKeyLine sourceUrl ?q
      = ''#EXT-X-KEY:URI='' @ [dquote] @ ''http://h/'' @ [dquote]
            @ ''?url=http%3A%2F%2Fa%2Fk'' @ [dquote]"
    by (simp add: ev absoluteKeyLine_def)
  have d2: "processM3u8 scenarioApi
        (''#EXT-X-KEY:URI='' @ [dquote] @ ''http://h/'' @ [dquote]
            @ ''?url=http%3A%2F%2Fa%2Fk'' @ [dquote]) sourceUrl ?q
      = ''#EXT-X-KEY:URI='' @ [dquote] @ ''http://h/'' @ [dquote]
            @ ''?url=http%3A%2F%2Fh%2F'' @ [dquote] @ ''?url=http%3A%2F%2Fa%2Fk'' @ [dquote]"
    by (simp add: ev)
  have e1: "processM3u8 scenarioApi absoluteKeyLine sourceUrl ''http://h/$&''
      = ''#EXT-X-KEY:URI='' @ [dquote] @ ''http://h/URI='' @ [dquote] @ ''http://a/k''
            @ [dquote] @ ''?url=http%3A%2F%2Fa%2Fk'' @ [dquote]"
    by (simp add: ev absoluteKeyLine_def)
  have e2: "processM3u8 scenarioApi
        (''#EXT-X-KEY:URI='' @ [dquote] @ ''http://h/URI='' @ [dquote] @ ''http://a/k''
            @ [dquote] @ ''?url=http%3A%2F%2Fa%2Fk'' @ [dquote]) sourceUrl ''http://h/$&''
      = ''#EXT-X-KEY:URI='' @ [dquote] @ ''http://h/URI='' @ [dquote] @ ''http://h/URI=''
            @ [dquote] @ ''?url=http%3A%2F%2Fh%2FURI%3D'' @ [dquote] @ ''http://a/k''
            @ [dquote] @ ''?url=http%3A%2F%2Fa%2Fk'' @ [dquote]"
    by (simp add: ev)
  have f0: "uriMatches straddleLine = [''/proxyURI='', ''http://a/k'']"
    by (simp add: straddleLine_def str_eval)
  have f1: "processM3u8 scenarioApi straddleLine sourceUrl ''/proxy''
      = ''#EXT-X-PART:URI='' @ [dquote] @ ''/proxyURI='' @ [dquote]
            @ ''/proxy?url=http%3A%2F%2Fa%2Fk'' @ [dquote]
            @ '',URI='' @ [dquote] @ ''http://a/k'' @ [dquote]"
    by (simp add: ev straddleLine_def)
  have f2: "processM3u8 scenarioApi
        (''#EXT-X-PART:URI='' @ [dquote] @ ''/proxyURI='' @ [dquote]
            @ ''/proxy?url=http%3A%2F%2Fa%2Fk'' @ [dquote]
            @ '',URI='' @ [dquote] @ ''http://a/k'' @ [dquote]) sourceUrl ''/proxy''
      = ''#EXT-X-PART:URI='' @ [dquote] @ ''/proxyURI='' @ [dquote]
            @ ''/proxy?url=http%3A%2F%2Fa%2Fk'' @ [dquote]
            @ '',URI='' @ [dquote] @ ''/proxy?url=http%3A%2F%2Fa%2Fk'' @ [dquote]"
    by (simp add: ev)
  show ?thesis
    unfolding a1 a2 b1 b2 c1 c2 d1 d2 e1 e2 f1 f2 f0 by (simp add: dquote_def)
qed

section \<open>Properties of the handler\<close>

lemma handleProxy_miss:
  assumes "query = Some targetUrl" and "targetUrl \<noteq> []"
    and "newUrl (urlClass rt) targetUrl = Some u"
    and "fst (cache_get now1 targetUrl cache) = None"
    and "proxyUrl rt ts targetUrl (requestTimeout cfg) = Inr result"
  shows "handleProxy rt cfg ts query now1 now2 cache =
     \<lparr>sent = \<lparr>res_status = 200,
              res_headers =
                [(''Content-Type'',
                  snd (rewritten rt targetUrl (decompressed rt result)
                         (classified targetUrl (decompressed rt result) result))),
                 (''X-Cache'', ''MISS''),
                 (''Content-Length'',
                  showNat (contentLength
                    (fst (rewritten rt targetUrl (decompressed rt result)
                            (classified targetUrl (decompressed rt result) result)))))],
              res_body =
                Payload (fst (rewritten rt targetUrl (decompressed rt result)
                                (classified targetUrl (decompressed rt result) result)))\<rparr>,
      resultHeaders =
        Some (if truthy (r_headers result ''content-encoding'')
              then (r_headers result)(''content-encoding'' := None)
              else r_headers result),
      cacheAfter =
        cache_set now2 targetUrl
          (fst (rewritten rt targetUrl (decompressed rt result)
                  (classified targetUrl (decompressed rt result) result)))
          (snd (rewritten rt targetUrl (decompressed rt result)
                  (classified targetUrl (decompressed rt result) result)))
          (cacheTtl cfg) (snd (cache_get now1 targetUrl cache))\<rparr>"
proof -
  obtain cached cache1 where g: "cache_get now1 targetUrl cache = (cached, cache1)"
    by (cases "cache_get now1 targetUrl cache")
  with assms(4) have c: "cached = None" by simp
  show ?thesis
    using assms(1,2,3,5) g c
    by (simp add: handleProxy_def Let_def split: prod.splits)
qed

lemma handleProxy_error:
  assumes "query = Some targetUrl" and "targetUrl \<noteq> []"
    and "newUrl (urlClass rt) targetUrl = Some u"
    and "fst (cache_get now1 targetUrl cache) = None"
    and "proxyUrl rt ts targetUrl (requestTimeout cfg) = Inl e"
  shows "handleProxy rt cfg ts query now1 now2 cache =
     \<lparr>sent = \<lparr>res_status = 500, res_headers = [], res_body = ErrorJson e targetUrl\<rparr>,
      resultHeaders = None, cacheAfter = snd (cache_get now1 targetUrl cache)\<rparr>"
proof -
  obtain cached cache1 where g: "cache_get now1 targetUrl cache = (cached, cache1)"
    by (cases "cache_get now1 targetUrl cache")
  with assms(4) have c: "cached = None" by simp
  show ?thesis
    using assms(1,2,3,5) g c
    by (simp add: handleProxy_def Let_def)
qed

lemma handleProxy_hit:
  assumes "query = Some targetUrl" and "targetUrl \<noteq> []"
    and "newUrl (urlClass rt) targetUrl = Some u"
    and "fst (cache_get now1 targetUrl cache) = Some (c, ct)"
  shows "handleProxy rt cfg ts query now1 now2 cache =
     \<lparr>sent = \<lparr>res_status = 200,
              res_headers = [(''Content-Type'', ct), (''X-Cache'', ''HIT'')],
              res_body = Payload c\<rparr>,
      resultHeaders = None, cacheAfter = cache\<rparr>"
proof -
  obtain cached cache1 where g: "cache_get now1 targetUrl cache = (cached, cache1)"
    by (cases "cache_get now1 targetUrl cache")
  with assms(4) have c: "cached = Some (c, ct)" by simp
  with g get_sound [of now1 targetUrl cache "(c, ct)" cache1] have "cache1 = cache"
    by auto
  then show ?thesis
    using assms(1,2,3) g c
    by (simp add: handleProxy_def Let_def)
qed

lemma handleProxy_rejected:
  assumes "query = None \<or> query = Some [] \<or> (\<exists>t. query = Some t \<and> newUrl (urlClass rt) t = None)"
  shows "res_status (sent (handleProxy rt cfg ts query now1 now2 cache)) = 400
    \<and> cacheAfter (handleProxy rt cfg ts query now1 now2 cache) = cache"
  using assms by (auto simp: handleProxy_def)

lemma cache_get_shrinks:
  "set (snd (cache_get now k c)) \<subseteq> set c"
  by (auto simp: cache_get_def AList.delete_eq split: option.splits)

lemma cache_get_other_keys:
  "k' \<noteq> k \<Longrightarrow> map_of (snd (cache_get now k c)) k' = map_of c k'"
  by (auto simp: cache_get_def delete_conv' split: option.splits)

lemma cache_get_no_stale_same:
  "(\<forall>e. map_of c k = Some e \<longrightarrow> age now e \<le> of_int (e_ttl e)) \<Longrightarrow> snd (cache_get now k c) = c"
  by (auto simp: cache_get_def split: option.splits)

lemma decompressed_buffer:
  assumes "r_content result = Buf b"
    and "r_headers result ''content-encoding'' = Some e" and "e \<noteq> []"
  shows "decompressed rt result =
     Buf (if toLowerCase e = ''gzip''
          then (case gunzipSync rt b of None \<Rightarrow> b | Some d \<Rightarrow> d)
          else if toLowerCase e = ''deflate''
          then (case inflateSync rt b of None \<Rightarrow> b | Some d \<Rightarrow> d)
          else if toLowerCase e = ''br''
          then (case brotliDecompressSync rt b of None \<Rightarrow> b | Some d \<Rightarrow> d)
          else if toLowerCase e = ''zstd'' \<or> toLowerCase e = ''zst''
          then (case zstdDecompress rt b of None \<Rightarrow> b | Some d \<Rightarrow> d)
          else b)"
  using assms
  by (simp add: decompressed_def truthy_def decompressContent_def orOriginal_def Let_def)

lemma decompressed_failure:
  assumes "r_content result = Buf b"
    and "gunzipSync rt b = None" and "inflateSync rt b = None"
    and "brotliDecompressSync rt b = None" and "zstdDecompress rt b = None"
  shows "decompressed rt result = Buf b"
  using assms
  by (simp add: decompressed_def decompressContent_def orOriginal_def Let_def
      split: option.splits)

lemma decompressed_text: "r_content result = Text s \<Longrightarrow> decompressed rt result = Text s"
  by (simp add: decompressed_def)

lemma toLowerCase_gzip: "toLowerCase ''gzip'' = ''gzip''"
  by (simp add: toLowerCase_def asciiLower_def)

lemma rewritten_cases:
  "rewritten rt targetUrl c t =
     (if (isM3u8Url targetUrl \<or> isM3u8ContentType t) \<and> isActuallyM3u8 rt c
      then (Text (processM3u8 (urlClass rt)
                    (case c of Text s \<Rightarrow> s | Buf b \<Rightarrow> toStringUtf8 rt b) targetUrl ''/proxy''),
            ''application/vnd.apple.mpegurl'')
      else (c, t))"
  by (simp add: rewritten_def Let_def)

text \<open>
  Claim C3, as the code has it.  For a request that misses the cache and whose fetch
  succeeds: a content-encoding header of the fetched result that is present and not empty is
  deleted from \<open>result.headers\<close> before the response is returned, whether decompression
  succeeded or failed.  The body sent is what the rest of the pipeline makes of the content
  after the decompression block.  For a binary body that content is given by the
  decompressor that the lower-cased encoding selects (\<open>gzip\<close>, \<open>deflate\<close>, \<open>br\<close>, and
  \<open>zstd\<close> or \<open>zst\<close>): its output when it succeeds, the original, compressed bytes when it
  raises; the original bytes too under any other encoding.  A body already decoded as text
  is not decompressed.
\<close>

theorem content_encoding_always_removed:
  assumes "targetUrl \<noteq> []" and "newUrl (urlClass rt) targetUrl = Some u"
    and "fst (cache_get now1 targetUrl cache) = None"
    and "proxyUrl rt ts targetUrl (requestTimeout cfg) = Inr result"
  shows "(truthy (r_headers result ''content-encoding'') \<longrightarrow>
            leftHeader (handleProxy rt cfg ts (Some targetUrl) now1 now2 cache) ''content-encoding''
              = Some None)
    \<and> res_body (sent (handleProxy rt cfg ts (Some targetUrl) now1 now2 cache))
         = Payload (fst (rewritten rt targetUrl (decompressed rt result)
                           (classified targetUrl (decompressed rt result) result)))
    \<and> (\<forall>b e. r_content result = Buf b \<and> r_headers result ''content-encoding'' = Some e
            \<and> e \<noteq> [] \<longrightarrow>
          decompressed rt result =
            Buf (if toLowerCase e = ''gzip''
                 then (case gunzipSync rt b of None \<Rightarrow> b | Some d \<Rightarrow> d)
                 else if toLowerCase e = ''deflate''
                 then (case inflateSync rt b of None \<Rightarrow> b | Some d \<Rightarrow> d)
                 else if toLowerCase e = ''br''
                 then (case brotliDecompressSync rt b of None \<Rightarrow> b | Some d \<Rightarrow> d)
                 else if toLowerCase e = ''zstd'' \<or> toLowerCase e = ''zst''
                 then (case zstdDecompress rt b of None \<Rightarrow> b | Some d \<Rightarrow> d)
                 else b))
    \<and> (\<forall>s. r_content result = Text s \<longrightarrow> decompressed rt result = Text s)"
proof -
  note H = handleProxy_miss [OF refl assms, of now2]
  have "\<forall>b e. r_content result = Buf b \<and> r_headers result ''content-encoding'' = Some e
            \<and> e \<noteq> [] \<longrightarrow>
          decompressed rt result =
            Buf (if toLowerCase e = ''gzip''
                 then (case gunzipSync rt b of None \<Rightarrow> b | Some d \<Rightarrow> d)
                 else if toLowerCase e = ''deflate''
                 then (case inflateSync rt b of None \<Rightarrow> b | Some d \<Rightarrow> d)
                 else if toLowerCase e = ''br''
                 then (case brotliDecompressSync rt b of None \<Rightarrow> b | Some d \<Rightarrow> d)
                 else if toLowerCase e = ''zstd'' \<or> toLowerCase e = ''zst''
                 then (case zstdDecompress rt b of None \<Rightarrow> b | Some d \<Rightarrow> d)
                 else b)"
    using decompressed_buffer [of result _ _ rt] by blast
  moreover have "\<forall>s. r_content result = Text s \<longrightarrow> decompressed rt result = Text s"
    using decompressed_text [of result _ rt] by blast
  ultimately show ?thesis
    unfolding H by (simp add: leftHeader_def)
qed

theorem content_encoding_always_removed_witness:
  "leftHeader (handleProxy (sampleRuntime gzipAnswer) sampleConfig sampleTemplates
       (Some sourceUrl) 5000 5100 []) ''content-encoding'' = Some None
   \<and> res_body (sent (handleProxy (sampleRuntime gzipAnswer) sampleConfig sampleTemplates
       (Some sourceUrl) 5000 5100 [])) = Payload (Buf gifBytes)"
proof -
  let ?rt = "sampleRuntime gzipAnswer"
  let ?result = "\<lparr>r_content = Buf gifBytes, r_contentType = ''video/mp2t'',
      r_status = 200,
      r_headers = [''content-type'' \<mapsto> ''video/mp2t'', ''content-encoding'' \<mapsto> ''gzip'']\<rparr>"
  have u: "newUrl (urlClass ?rt) sourceUrl
      = Some \<lparr>protocol = ''https:'', hostname = ''cdn.example.com'', host = ''cdn.example.com''\<rparr>"
    by (simp add: sampleRuntime_def scenarioApi_def)
  have p: "proxyUrl ?rt sampleTemplates sourceUrl (requestTimeout sampleConfig) = Inr ?result"
    by (simp add: proxyUrl_def sampleRuntime_def scenarioApi_def gzipAnswer_def
        orOctetStream_def Let_def)
  have s: "sourceUrl \<noteq> []"
    by (simp add: sourceUrl_def)
  have g: "fst (cache_get 5000 sourceUrl []) = None"
    by (simp add: cache_get_def)
  note T = content_encoding_always_removed [OF s u g p, of 5100]
  have t: "truthy (r_headers ?result ''content-encoding'')"
    by (simp add: truthy_def)
  have "r_content ?result = Buf gifBytes
      \<and> r_headers ?result ''content-encoding'' = Some ''gzip'' \<and> ''gzip'' \<noteq> []"
    by simp
  with T have "decompressed ?rt ?result =
      Buf (if toLowerCase ''gzip'' = ''gzip''
           then (case gunzipSync ?rt gifBytes of None \<Rightarrow> gifBytes | Some d \<Rightarrow> d)
           else if toLowerCase ''gzip'' = ''deflate''
           then (case inflateSync ?rt gifBytes of None \<Rightarrow> gifBytes | Some d \<Rightarrow> d)
           else if toLowerCase ''gzip'' = ''br''
           then (case brotliDecompressSync ?rt gifBytes of None \<Rightarrow> gifBytes | Some d \<Rightarrow> d)
           else if toLowerCase ''gzip'' = ''zstd'' \<or> toLowerCase ''gzip'' = ''zst''
           then (case zstdDecompress ?rt gifBytes of None \<Rightarrow> gifBytes | Some d \<Rightarrow> d)
           else gifBytes)"
    by blast
  then have d: "decompressed ?rt ?result = Buf gifBytes"
    by (simp add: toLowerCase_gzip sampleRuntime_def)
  have a: "\<not> isActuallyM3u8 ?rt (Buf gifBytes)"
    by (simp add: isActuallyM3u8_def playlistMarker_def sampleRuntime_def gifBytes_def str_eval)
  from T t d a show ?thesis
    by (simp add: rewritten_cases)
qed

text \<open>
  C3 has the header kept when decompression fails.  Here the body is labelled gzip, the
  decompressor refuses it, the body sent is the original bytes, and the header is gone from
  \<open>result.headers\<close> all the same.
\<close>

theorem content_encoding_kept_counterexample:
  "r_headers \<lparr>r_content = Buf gifBytes, r_contentType = ''video/mp2t'', r_status = 200,
       r_headers = [''content-type'' \<mapsto> ''video/mp2t'', ''content-encoding'' \<mapsto> ''gzip'']\<rparr>
     ''content-encoding'' = Some ''gzip''
   \<and> proxyUrl (sampleRuntime gzipAnswer) sampleTemplates sourceUrl (requestTimeout sampleConfig)
       = Inr \<lparr>r_content = Buf gifBytes, r_contentType = ''video/mp2t'', r_status = 200,
           r_headers = [''content-type'' \<mapsto> ''video/mp2t'', ''content-encoding'' \<mapsto> ''gzip'']\<rparr>
   \<and> gunzipSync (sampleRuntime gzipAnswer) gifBytes = None
   \<and> res_body (sent (handleProxy (sampleRuntime gzipAnswer) sampleConfig sampleTemplates
        (Some sourceUrl) 5000 5100 [])) = Payload (Buf gifBytes)
   \<and> leftHeader (handleProxy (sampleRuntime gzipAnswer) sampleConfig sampleTemplates
        (Some sourceUrl) 5000 5100 []) ''content-encoding'' = Some None"
proof -
  let ?rt = "sampleRuntime gzipAnswer"
  let ?result = "\<lparr>r_content = Buf gifBytes, r_contentType = ''video/mp2t'',
      r_status = 200,
      r_headers = [''content-type'' \<mapsto> ''video/mp2t'', ''content-encoding'' \<mapsto> ''gzip'']\<rparr>"
  have u: "newUrl (urlClass ?rt) sourceUrl
      = Some \<lparr>protocol = ''https:'', hostname = ''cdn.example.com'', host = ''cdn.example.com''\<rparr>"
    by (simp add: sampleRuntime_def scenarioApi_def)
  have p: "proxyUrl ?rt sampleTemplates sourceUrl (requestTimeout sampleConfig) = Inr ?result"
    by (simp add: proxyUrl_def sampleRuntime_def scenarioApi_def gzipAnswer_def
        orOctetStream_def Let_def)
  have s: "sourceUrl \<noteq> []"
    by (simp add: sourceUrl_def)
  have g: "fst (cache_get 5000 sourceUrl []) = None"
    by (simp add: cache_get_def)
  note H = handleProxy_miss [OF refl s u g p, of 5100]
  have z: "gunzipSync ?rt gifBytes = None"
    by (simp add: sampleRuntime_def)
  have "decompressed ?rt ?result =
      Buf (if toLowerCase ''gzip'' = ''gzip''
           then (case gunzipSync ?rt gifBytes of None \<Rightarrow> gifBytes | Some d \<Rightarrow> d)
           else if toLowerCase ''gzip'' = ''deflate''
           then (case inflateSync ?rt gifBytes of None \<Rightarrow> gifBytes | Some d \<Rightarrow> d)
           else if toLowerCase ''gzip'' = ''br''
           then (case brotliDecompressSync ?rt gifBytes of None \<Rightarrow> gifBytes | Some d \<Rightarrow> d)
           else if toLowerCase ''gzip'' = ''zstd'' \<or> toLowerCase ''gzip'' = ''zst''
           then (case zstdDecompress ?rt gifBytes of None \<Rightarrow> gifBytes | Some d \<Rightarrow> d)
           else gifBytes)"
    by (rule decompressed_buffer) simp_all
  then have d: "decompressed ?rt ?result = Buf gifBytes"
    by (simp add: toLowerCase_gzip z)
  have a: "\<not> isActuallyM3u8 ?rt (Buf gifBytes)"
    by (simp add: isActuallyM3u8_def playlistMarker_def sampleRuntime_def gifBytes_def str_eval)
  have b: "res_body (sent (handleProxy ?rt sampleConfig sampleTemplates
        (Some sourceUrl) 5000 5100 [])) = Payload (Buf gifBytes)"
    unfolding H by (simp add: d a rewritten_cases)
  have l: "leftHeader (handleProxy ?rt sampleConfig sampleTemplates
        (Some sourceUrl) 5000 5100 []) ''content-encoding'' = Some None"
    unfolding H by (simp add: leftHeader_def truthy_def)
  from p z b l show ?thesis by simp
qed

lemma isM3u8Url_sourceUrl: "isM3u8Url sourceUrl"
  by (simp add: isM3u8Url_def sourceUrl_def toLowerCase_def asciiLower_def endsWith_def
      suffix_to_prefix)

lemma sample_newUrl:
  "newUrl (urlClass (sampleRuntime answer)) sourceUrl
     = Some \<lparr>protocol = ''https:'', hostname = ''cdn.example.com'', host = ''cdn.example.com''\<rparr>"
  by (simp add: sampleRuntime_def scenarioApi_def)

lemma sourceUrl_not_empty: "sourceUrl \<noteq> []"
  by (simp add: sourceUrl_def)

text \<open>
  Claim C5.  For a request that misses the cache and whose fetch succeeds, with \<open>c\<close> the
  content after decompression and \<open>t\<close> its classified type: when the URL or \<open>t\<close> looks like a
  playlist and \<open>c\<close> starts with a playlist marker, the body sent is the rewriter's output on
  the text of \<open>c\<close> and the content type is the playlist media type; in every other case, so in
  particular when \<open>c\<close> does not start with a marker whatever the URL and \<open>t\<close> say, the body is
  \<open>c\<close> itself and the content type is \<open>t\<close>.  The marker test is made on the trimmed text, for
  a buffer on the trimmed text of its first 100 bytes.
\<close>

theorem rewrite_only_marked_playlists:
  assumes "targetUrl \<noteq> []" and "newUrl (urlClass rt) targetUrl = Some u"
    and "fst (cache_get now1 targetUrl cache) = None"
    and "proxyUrl rt ts targetUrl (requestTimeout cfg) = Inr result"
  shows "((isM3u8Url targetUrl
            \<or> isM3u8ContentType (classified targetUrl (decompressed rt result) result))
          \<and> isActuallyM3u8 rt (decompressed rt result) \<longrightarrow>
            res_body (sent (handleProxy rt cfg ts (Some targetUrl) now1 now2 cache))
              = Payload (Text (processM3u8 (urlClass rt)
                  (case decompressed rt result of Text s \<Rightarrow> s | Buf b \<Rightarrow> toStringUtf8 rt b)
                  targetUrl ''/proxy''))
            \<and> hd (res_headers (sent (handleProxy rt cfg ts (Some targetUrl) now1 now2 cache)))
              = (''Content-Type'', ''application/vnd.apple.mpegurl''))
    \<and> (\<not> ((isM3u8Url targetUrl
            \<or> isM3u8ContentType (classified targetUrl (decompressed rt result) result))
          \<and> isActuallyM3u8 rt (decompressed rt result)) \<longrightarrow>
            res_body (sent (handleProxy rt cfg ts (Some targetUrl) now1 now2 cache))
              = Payload (decompressed rt result)
            \<and> hd (res_headers (sent (handleProxy rt cfg ts (Some targetUrl) now1 now2 cache)))
              = (''Content-Type'', classified targetUrl (decompressed rt result) result))
    \<and> (\<forall>s. isActuallyM3u8 rt (Text s) \<longleftrightarrow>
          startsWith (trim s) ''#EXTM3U'' \<or> startsWith (trim s) ''#EXT-X-'')
    \<and> (\<forall>b. isActuallyM3u8 rt (Buf b) \<longleftrightarrow>
          b \<noteq> [] \<and> (startsWith (trim (toStringUtf8 rt (take 100 b))) ''#EXTM3U''
                    \<or> startsWith (trim (toStringUtf8 rt (take 100 b))) ''#EXT-X-''))"
proof -
  note H = handleProxy_miss [OF refl assms, of now2]
  have "\<forall>b. isActuallyM3u8 rt (Buf b) \<longleftrightarrow>
          b \<noteq> [] \<and> (startsWith (trim (toStringUtf8 rt (take 100 b))) ''#EXTM3U''
                    \<or> startsWith (trim (toStringUtf8 rt (take 100 b))) ''#EXT-X-'')"
    by (simp add: isActuallyM3u8_def playlistMarker_def min_def)
  moreover have "\<forall>s. isActuallyM3u8 rt (Text s) \<longleftrightarrow>
          startsWith (trim s) ''#EXTM3U'' \<or> startsWith (trim s) ''#EXT-X-''"
    by (simp add: isActuallyM3u8_def playlistMarker_def)
  ultimately show ?thesis
    unfolding H by (simp add: rewritten_cases)
qed

theorem rewrite_only_marked_playlists_witness:
  "res_body (sent (handleProxy (sampleRuntime gzipAnswer) sampleConfig sampleTemplates
       (Some sourceUrl) 5000 5100 [])) = Payload (Buf gifBytes)
   \<and> res_body (sent (handleProxy (sampleRuntime playlistAnswer) sampleConfig sampleTemplates
       (Some sourceUrl) 5000 5100 []))
       = Payload (Text (''#EXTM3U'' @ [CHR 0x0A]
           @ ''/proxy?url=https%3A%2F%2Fcdn.example.com%2Fvideos%2Fshow%2Fsegment001.ts''))"
proof -
  let ?g = "sampleRuntime gzipAnswer" and ?p = "sampleRuntime playlistAnswer"
  let ?gr = "\<lparr>r_content = Buf gifBytes, r_contentType = ''video/mp2t'', r_status = 200,
      r_headers = [''content-type'' \<mapsto> ''video/mp2t'', ''content-encoding'' \<mapsto> ''gzip'']\<rparr>"
  let ?pr = "\<lparr>r_content = Buf playlistBytes, r_contentType = ''application/octet-stream'',
      r_status = 200, r_headers = [''content-type'' \<mapsto> ''application/octet-stream'']\<rparr>"
  have g: "fst (cache_get 5000 sourceUrl []) = None"
    by (simp add: cache_get_def)
  have pg: "proxyUrl ?g sampleTemplates sourceUrl (requestTimeout sampleConfig) = Inr ?gr"
    by (simp add: proxyUrl_def sampleRuntime_def scenarioApi_def gzipAnswer_def
        orOctetStream_def Let_def)
  have pp: "proxyUrl ?p sampleTemplates sourceUrl (requestTimeout sampleConfig) = Inr ?pr"
    by (simp add: proxyUrl_def sampleRuntime_def scenarioApi_def playlistAnswer_def
        orOctetStream_def Let_def)
  note G = rewrite_only_marked_playlists [OF sourceUrl_not_empty sample_newUrl g pg, of 5100]
  note P = rewrite_only_marked_playlists [OF sourceUrl_not_empty sample_newUrl g pp, of 5100]
  have dg: "decompressed ?g ?gr = Buf gifBytes"
    by (rule decompressed_failure) (simp_all add: sampleRuntime_def)
  have dp: "decompressed ?p ?pr = Buf playlistBytes"
    by (simp add: decompressed_def truthy_def)
  have ag: "\<not> isActuallyM3u8 ?g (Buf gifBytes)"
    by (simp add: isActuallyM3u8_def playlistMarker_def sampleRuntime_def gifBytes_def str_eval)
  have ap: "isActuallyM3u8 ?p (Buf playlistBytes)"
    by (simp add: isActuallyM3u8_def playlistMarker_def sampleRuntime_def playlistBytes_def
        playlistText_def gifBytes_def str_eval)
  have t: "toStringUtf8 ?p playlistBytes = playlistText"
    by (simp add: sampleRuntime_def playlistBytes_def gifBytes_def)
  have r: "processM3u8 (urlClass ?p) playlistText sourceUrl ''/proxy''
      = ''#EXTM3U'' @ [CHR 0x0A]
          @ ''/proxy?url=https%3A%2F%2Fcdn.example.com%2Fvideos%2Fshow%2Fsegment001.ts''"
    by (simp add: processM3u8_def sampleRuntime_def scenarioApi_def basePathOf_sourceUrl
        processLine_def proxiedOf_def absoluteOf_def playlistText_def str_eval)
  from G dg ag have "res_body (sent (handleProxy ?g sampleConfig sampleTemplates
       (Some sourceUrl) 5000 5100 [])) = Payload (Buf gifBytes)"
    by simp
  moreover from P dp ap isM3u8Url_sourceUrl t r
  have "res_body (sent (handleProxy ?p sampleConfig sampleTemplates
       (Some sourceUrl) 5000 5100 []))
       = Payload (Text (''#EXTM3U'' @ [CHR 0x0A]
           @ ''/proxy?url=https%3A%2F%2Fcdn.example.com%2Fvideos%2Fshow%2Fsegment001.ts''))"
    by simp
  ultimately show ?thesis by simp
qed

text \<open>
  Claim C9, as the code has it.  For a well-formed request that misses the cache: when the
  fetch raises, the handler answers with status 500 and stores nothing, and the cache is left
  as the lookup left it, which is the cache before the request except that the lookup has
  deleted an expired entry under the target URL if there was one; when the fetch succeeds,
  the entry written is the final content and content type, the ones sent in the response,
  and it is written after decompression, classification and rewrite (none of which raises:
  a decompressor's failure is recovered with the original bytes).  A request answered with
  status 400 or from the cache leaves the cache as it was.
\<close>

theorem cache_written_after_pipeline:
  "(targetUrl \<noteq> [] \<and> newUrl (urlClass rt) targetUrl = Some u
      \<and> fst (cache_get now1 targetUrl cache) = None
      \<and> proxyUrl rt ts targetUrl (requestTimeout cfg) = Inl e \<longrightarrow>
        sent (handleProxy rt cfg ts (Some targetUrl) now1 now2 cache)
          = \<lparr>res_status = 500, res_headers = [], res_body = ErrorJson e targetUrl\<rparr>
        \<and> cacheAfter (handleProxy rt cfg ts (Some targetUrl) now1 now2 cache)
          = snd (cache_get now1 targetUrl cache)
        \<and> set (cacheAfter (handleProxy rt cfg ts (Some targetUrl) now1 now2 cache)) \<subseteq> set cache
        \<and> (\<forall>k. k \<noteq> targetUrl \<longrightarrow>
              map_of (cacheAfter (handleProxy rt cfg ts (Some targetUrl) now1 now2 cache)) k
                = map_of cache k)
        \<and> ((\<forall>entry. map_of cache targetUrl = Some entry \<longrightarrow>
               age now1 entry \<le> of_int (e_ttl entry)) \<longrightarrow>
             cacheAfter (handleProxy rt cfg ts (Some targetUrl) now1 now2 cache) = cache))
   \<and> (targetUrl \<noteq> [] \<and> newUrl (urlClass rt) targetUrl = Some u
      \<and> fst (cache_get now1 targetUrl cache) = None
      \<and> proxyUrl rt ts targetUrl (requestTimeout cfg) = Inr result \<longrightarrow>
        res_status (sent (handleProxy rt cfg ts (Some targetUrl) now1 now2 cache)) = 200
        \<and> res_body (sent (handleProxy rt cfg ts (Some targetUrl) now1 now2 cache))
          = Payload (fst (rewritten rt targetUrl (decompressed rt result)
                            (classified targetUrl (decompressed rt result) result)))
        \<and> hd (res_headers (sent (handleProxy rt cfg ts (Some targetUrl) now1 now2 cache)))
          = (''Content-Type'', snd (rewritten rt targetUrl (decompressed rt result)
                            (classified targetUrl (decompressed rt result) result)))
        \<and> cacheAfter (handleProxy rt cfg ts (Some targetUrl) now1 now2 cache)
          = cache_set now2 targetUrl
              (fst (rewritten rt targetUrl (decompressed rt result)
                      (classified targetUrl (decompressed rt result) result)))
              (snd (rewritten rt targetUrl (decompressed rt result)
                      (classified targetUrl (decompressed rt result) result)))
              (cacheTtl cfg) (snd (cache_get now1 targetUrl cache)))
   \<and> (targetUrl \<noteq> [] \<and> newUrl (urlClass rt) targetUrl = Some u
      \<and> fst (cache_get now1 targetUrl cache) = Some found \<longrightarrow>
        cacheAfter (handleProxy rt cfg ts (Some targetUrl) now1 now2 cache) = cache)
   \<and> (query = None \<or> query = Some [] \<or> (\<exists>t. query = Some t \<and> newUrl (urlClass rt) t = None) \<longrightarrow>
        res_status (sent (handleProxy rt cfg ts query now1 now2 cache)) = 400
        \<and> cacheAfter (handleProxy rt cfg ts query now1 now2 cache) = cache)"
proof -
  have err: "targetUrl \<noteq> [] \<and> newUrl (urlClass rt) targetUrl = Some u
      \<and> fst (cache_get now1 targetUrl cache) = None
      \<and> proxyUrl rt ts targetUrl (requestTimeout cfg) = Inl e \<longrightarrow>
        sent (handleProxy rt cfg ts (Some targetUrl) now1 now2 cache)
          = \<lparr>res_status = 500, res_headers = [], res_body = ErrorJson e targetUrl\<rparr>
        \<and> cacheAfter (handleProxy rt cfg ts (Some targetUrl) now1 now2 cache)
          = snd (cache_get now1 targetUrl cache)
        \<and> set (cacheAfter (handleProxy rt cfg ts (Some targetUrl) now1 now2 cache)) \<subseteq> set cache
        \<and> (\<forall>k. k \<noteq> targetUrl \<longrightarrow>
              map_of (cacheAfter (handleProxy rt cfg ts (Some targetUrl) now1 now2 cache)) k
                = map_of cache k)
        \<and> ((\<forall>entry. map_of cache targetUrl = Some entry \<longrightarrow>
               age now1 entry \<le> of_int (e_ttl entry)) \<longrightarrow>
             cacheAfter (handleProxy rt cfg ts (Some targetUrl) now1 now2 cache) = cache)"
  proof (intro impI, elim conjE)
    assume a: "targetUrl \<noteq> []" "newUrl (urlClass rt) targetUrl = Some u"
      "fst (cache_get now1 targetUrl cache) = None"
      "proxyUrl rt ts targetUrl (requestTimeout cfg) = Inl e"
    note H = handleProxy_error [OF refl a, of now2]
    show "sent (handleProxy rt cfg ts (Some targetUrl) now1 now2 cache)
          = \<lparr>res_status = 500, res_headers = [], res_body = ErrorJson e targetUrl\<rparr>
        \<and> cacheAfter (handleProxy rt cfg ts (Some targetUrl) now1 now2 cache)
          = snd (cache_get now1 targetUrl cache)
        \<and> set (cacheAfter (handleProxy rt cfg ts (Some targetUrl) now1 now2 cache)) \<subseteq> set cache
        \<and> (\<forall>k. k \<noteq> targetUrl \<longrightarrow>
              map_of (cacheAfter (handleProxy rt cfg ts (Some targetUrl) now1 now2 cache)) k
                = map_of cache k)
        \<and> ((\<forall>entry. map_of cache targetUrl = Some entry \<longrightarrow>
               age now1 entry \<le> of_int (e_ttl entry)) \<longrightarrow>
             cacheAfter (handleProxy rt cfg ts (Some targetUrl) now1 now2 cache) = cache)"
      unfolding H
      using cache_get_shrinks [of now1 targetUrl cache] cache_get_other_keys [of _ targetUrl now1 cache]
        cache_get_no_stale_same [of cache targetUrl now1]
      by simp
  qed
  have ok: "targetUrl \<noteq> [] \<and> newUrl (urlClass rt) targetUrl = Some u
      \<and> fst (cache_get now1 targetUrl cache) = None
      \<and> proxyUrl rt ts targetUrl (requestTimeout cfg) = Inr result \<longrightarrow>
        res_status (sent (handleProxy rt cfg ts (Some targetUrl) now1 now2 cache)) = 200
        \<and> res_body (sent (handleProxy rt cfg ts (Some targetUrl) now1 now2 cache))
          = Payload (fst (rewritten rt targetUrl (decompressed rt result)
                            (classified targetUrl (decompressed rt result) result)))
        \<and> hd (res_headers (sent (handleProxy rt cfg ts (Some targetUrl) now1 now2 cache)))
          = (''Content-Type'', snd (rewritten rt targetUrl (decompressed rt result)
                            (classified targetUrl (decompressed rt result) result)))
        \<and> cacheAfter (handleProxy rt cfg ts (Some targetUrl) now1 now2 cache)
          = cache_set now2 targetUrl
              (fst (rewritten rt targetUrl (decompressed rt result)
                      (classified targetUrl (decompressed rt result) result)))
              (snd (rewritten rt targetUrl (decompressed rt result)
                      (classified targetUrl (decompressed rt result) result)))
              (cacheTtl cfg) (snd (cache_get now1 targetUrl cache))"
  proof (intro impI, elim conjE)
    assume a: "targetUrl \<noteq> []" "newUrl (urlClass rt) targetUrl = Some u"
      "fst (cache_get now1 targetUrl cache) = None"
      "proxyUrl rt ts targetUrl (requestTimeout cfg) = Inr result"
    note H = handleProxy_miss [OF refl a, of now2]
    show "res_status (sent (handleProxy rt cfg ts (Some targetUrl) now1 now2 cache)) = 200
        \<and> res_body (sent (handleProxy rt cfg ts (Some targetUrl) now1 now2 cache))
          = Payload (fst (rewritten rt targetUrl (decompressed rt result)
                            (classified targetUrl (decompressed rt result) result)))
        \<and> hd (res_headers (sent (handleProxy rt cfg ts (Some targetUrl) now1 now2 cache)))
          = (''Content-Type'', snd (rewritten rt targetUrl (decompressed rt result)
                            (classified targetUrl (decompressed rt result) result)))
        \<and> cacheAfter (handleProxy rt cfg ts (Some targetUrl) now1 now2 cache)
          = cache_set now2 targetUrl
              (fst (rewritten rt targetUrl (decompressed rt result)
                      (classified targetUrl (decompressed rt result) result)))
              (snd (rewritten rt targetUrl (decompressed rt result)
                      (classified targetUrl (decompressed rt result) result)))
              (cacheTtl cfg) (snd (cache_get now1 targetUrl cache))"
      unfolding H by simp
  qed
  have cached: "targetUrl \<noteq> [] \<and> newUrl (urlClass rt) targetUrl = Some u
      \<and> fst (cache_get now1 targetUrl cache) = Some found \<longrightarrow>
        cacheAfter (handleProxy rt cfg ts (Some targetUrl) now1 now2 cache) = cache"
    using handleProxy_hit [OF refl, of targetUrl rt u now1 cache "fst found" "snd found" cfg ts now2]
    by simp
  from err ok cached handleProxy_rejected [of query rt cfg ts now1 now2 cache]
  show ?thesis by blast
qed

theorem cache_written_after_pipeline_witness:
  "sent (handleProxy (sampleRuntime failedAnswer) sampleConfig sampleTemplates
       (Some sourceUrl) 5000 5100 [])
     = \<lparr>res_status = 500, res_headers = [],
        res_body = ErrorJson (FetchFailed ''connect ECONNREFUSED'') sourceUrl\<rparr>
   \<and> cacheAfter (handleProxy (sampleRuntime failedAnswer) sampleConfig sampleTemplates
       (Some sourceUrl) 5000 5100 []) = []
   \<and> cacheAfter (handleProxy (sampleRuntime failedAnswer) sampleConfig sampleTemplates
       None 5000 5100 staleCache) = staleCache"
proof -
  let ?rt = "sampleRuntime failedAnswer"
  have g: "fst (cache_get 5000 sourceUrl []) = None"
    by (simp add: cache_get_def)
  have p: "proxyUrl ?rt sampleTemplates sourceUrl (requestTimeout sampleConfig)
      = Inl (FetchFailed ''connect ECONNREFUSED'')"
    by (simp add: proxyUrl_def sampleRuntime_def scenarioApi_def failedAnswer_def Let_def)
  note T = cache_written_after_pipeline [of sourceUrl ?rt _ 5000 "[]" sampleTemplates sampleConfig
      "FetchFailed ''connect ECONNREFUSED''" 5100]
  note N = cache_written_after_pipeline [of _ ?rt _ 5000 staleCache sampleTemplates sampleConfig
      _ 5100 _ _ None]
  from T sourceUrl_not_empty sample_newUrl [of failedAnswer] g p
  have "sent (handleProxy ?rt sampleConfig sampleTemplates (Some sourceUrl) 5000 5100 [])
     = \<lparr>res_status = 500, res_headers = [],
        res_body = ErrorJson (FetchFailed ''connect ECONNREFUSED'') sourceUrl\<rparr>
   \<and> cacheAfter (handleProxy ?rt sampleConfig sampleTemplates (Some sourceUrl) 5000 5100 [])
     = snd (cache_get 5000 sourceUrl [])"
    by blast
  moreover from N
  have "cacheAfter (handleProxy ?rt sampleConfig sampleTemplates None 5000 5100 staleCache)
      = staleCache"
    by blast
  ultimately show ?thesis
    by (simp add: cache_get_def)
qed

text \<open>
  C9 has the cache left exactly as it was before a request that fails.  Here the cache holds
  an expired entry under the target URL: the lookup deletes it, the fetch then fails, and
  the cache after the request is empty.
\<close>

theorem cache_unchanged_on_failure_counterexample:
  "res_status (sent (handleProxy (sampleRuntime failedAnswer) sampleConfig sampleTemplates
       (Some sourceUrl) 5000 5100 staleCache)) = 500
   \<and> cacheAfter (handleProxy (sampleRuntime failedAnswer) sampleConfig sampleTemplates
       (Some sourceUrl) 5000 5100 staleCache) = []
   \<and> staleCache \<noteq> []"
proof -
  let ?rt = "sampleRuntime failedAnswer"
  have g: "cache_get 5000 sourceUrl staleCache = (None, [])"
    by (simp add: cache_get_def staleCache_def cache_set_def orDefaultTtl_def age_def)
  then have g1: "fst (cache_get 5000 sourceUrl staleCache) = None"
    by simp
  have p: "proxyUrl ?rt sampleTemplates sourceUrl (requestTimeout sampleConfig)
      = Inl (FetchFailed ''connect ECONNREFUSED'')"
    by (simp add: proxyUrl_def sampleRuntime_def scenarioApi_def failedAnswer_def Let_def)
  note H = handleProxy_error [OF refl sourceUrl_not_empty sample_newUrl g1 p, of 5100]
  show ?thesis
    unfolding H g by (simp add: staleCache_def cache_set_def)
qed

end
